theory Spec2Isabelle
  imports Main "HOL-Library.AList"
begin

section \<open>Strings and numbers of the host language\<close>

text \<open>
  A TypeScript string is modelled as the list of its code units, a \<^typ>\<open>string\<close>;
  the model covers the code units below 256, which is where every character
  class of the source's patterns has its members apart from the exotic Unicode
  spaces. \<open>length\<close> is the source's \<open>.length\<close>.
\<close>

text \<open>
  White space as \<open>String.prototype.trim\<close>, \<open>parseInt\<close> and the pattern class
  \<open>\s\<close> see it: TAB, LF, VT, FF, CR, SPACE and NBSP.
\<close>

definition is_space :: "char \<Rightarrow> bool" where
  "is_space c = (of_char c \<in> {9, 10, 11, 12, 13, 32, 160 :: nat})"

definition is_digit :: "char \<Rightarrow> bool" where
  "is_digit c = (48 \<le> (of_char c :: nat) \<and> (of_char c :: nat) \<le> 57)"

text \<open>\<open>String.prototype.trim\<close>.\<close>

definition trim :: "string \<Rightarrow> string" where
  "trim s = rev (dropWhile is_space (rev (dropWhile is_space s)))"

definition digit_val :: "char \<Rightarrow> nat" where
  "digit_val c = of_char c - 48"

text \<open>The number a sequence of decimal digits denotes.\<close>

definition digits_value :: "string \<Rightarrow> nat" where
  "digits_value ds = foldl (\<lambda>acc c. 10 * acc + digit_val c) 0 ds"

text \<open>A number of the host language that came from reading an integer: \<open>NaN\<close> or the integer.\<close>

datatype jsnum = NaN | Num int

text \<open>
  \<open>parseInt(str, 10)\<close>: leading white space is skipped, one sign is read, then
  the longest run of decimal digits; no digit gives \<open>NaN\<close>. The value is the
  exact integer, which is what the source's double holds for every digit run
  below \<open>2^53\<close>.
\<close>

definition parseInt :: "string \<Rightarrow> jsnum" where
  "parseInt str =
     (let S = dropWhile is_space str;
          sign = (case S of c # _ \<Rightarrow> if c = CHR ''-'' then (-1 :: int) else 1 | [] \<Rightarrow> 1);
          S' = (case S of c # r \<Rightarrow> if c = CHR ''-'' \<or> c = CHR ''+'' then r else S | [] \<Rightarrow> S);
          Z = takeWhile is_digit S'
      in if Z = [] then NaN else Num (sign * int (digits_value Z)))"

definition is_word :: "char \<Rightarrow> bool" where
  "is_word c = (let n = (of_char c :: nat) in
      (48 \<le> n \<and> n \<le> 57) \<or> (65 \<le> n \<and> n \<le> 90) \<or> (97 \<le> n \<and> n \<le> 122) \<or> n = 95)"

text \<open>
  \<open>String.prototype.toLowerCase\<close> on code units below 256: the ASCII capitals
  and the Latin-1 capitals \<open>0xC0\<close> to \<open>0xDE\<close> except the multiplication sign.
\<close>

definition to_lower :: "char \<Rightarrow> char" where
  "to_lower c = (let n = (of_char c :: nat) in
      if (65 \<le> n \<and> n \<le> 90) \<or> (192 \<le> n \<and> n \<le> 222 \<and> n \<noteq> 215)
      then char_of (n + 32) else c)"

definition toLowerCase :: "string \<Rightarrow> string" where
  "toLowerCase s = map to_lower s"

text \<open>
  The decimal text of a natural number, and \<open>String(n)\<close> for a number that is
  a non-negative integer below \<open>10^21\<close>.
\<close>

fun dec :: "nat \<Rightarrow> string" where
  "dec n = (if n < 10 then [char_of (48 + n)] else dec (n div 10) @ [char_of (48 + n mod 10)])"

declare dec.simps [simp del]

text \<open>\<open>String.prototype.includes\<close>.\<close>

fun str_includes :: "string \<Rightarrow> string \<Rightarrow> bool" where
  "str_includes needle [] = (needle = [])"
| "str_includes needle (c # cs) = (take (length needle) (c # cs) = needle \<or> str_includes needle cs)"

text \<open>\<open>String.prototype.startsWith\<close>.\<close>

definition startsWith :: "string \<Rightarrow> string \<Rightarrow> bool" where
  "startsWith s p = (take (length p) s = p)"

text \<open>
  \<open>a ?? b\<close> on optional values: \<open>None\<close> stands for \<open>undefined\<close> and \<open>null\<close>.
\<close>

definition nullish :: "'a option \<Rightarrow> 'a option \<Rightarrow> 'a option" where
  "nullish a b = (case a of Some x \<Rightarrow> Some x | None \<Rightarrow> b)"

text \<open>\<open>text.replace(/\s+/g, ' ')\<close>: every maximal run of white space becomes one space.\<close>

fun collapse_ws :: "string \<Rightarrow> string" where
  "collapse_ws [] = []"
| "collapse_ws [c] = (if is_space c then '' '' else [c])"
| "collapse_ws (c # d # cs) =
     (if is_space c
      then (if is_space d then collapse_ws (d # cs) else CHR '' '' # collapse_ws (d # cs))
      else c # collapse_ws (d # cs))"

section \<open>Regular expressions of the host language\<close>

text \<open>
  The patterns of the source use literals, the classes \<open>\d\<close>, \<open>\s\<close>, \<open>\w\<close> and
  bracket classes, greedy quantifiers on a class, optional groups, alternation,
  capture groups and the end anchor. The matcher follows the continuation
  semantics of the language definition: a pattern is matched against the rest of
  the input and hands the text it consumed, the remaining input and the captures
  to a continuation; a failing continuation makes the matcher try its next
  choice (the longer repetition before the shorter, the left alternative before
  the right, the optional part before its omission). The first success is the
  match. The flag \<open>ic\<close> is the pattern's \<open>i\<close> flag.
\<close>

datatype cclass = Digit | Space | Word | OneOf string | Union cclass cclass | Not cclass

fun in_class :: "cclass \<Rightarrow> char \<Rightarrow> bool" where
  "in_class Digit c = is_digit c"
| "in_class Space c = is_space c"
| "in_class Word c = is_word c"
| "in_class (OneOf cs) c = (c \<in> set cs)"
| "in_class (Union a b) c = (in_class a c \<or> in_class b c)"
| "in_class (Not a) c = (\<not> in_class a c)"

datatype rx =
    Eps
  | Eos
  | Lit string
  | Rep cclass nat "nat option"
  | Seq rx rx
  | Alt rx rx
  | Opt rx
  | Grp nat rx

type_synonym captures = "(nat \<times> string) list"

text \<open>
  With the \<open>i\<close> flag two characters match when their canonical forms agree. Every
  pattern character of the source is ASCII, for which the canonical form is the
  ASCII capital; a code unit from 128 on never canonicalises to an ASCII one. The
  canonical form is given as its code.
\<close>

definition canonical_code :: "char \<Rightarrow> nat" where
  "canonical_code c = (let n = (of_char c :: nat) in
      if 97 \<le> n \<and> n \<le> 122 then n - 32 else n)"

definition char_eq :: "bool \<Rightarrow> char \<Rightarrow> char \<Rightarrow> bool" where
  "char_eq ic p c = (if ic then canonical_code p = canonical_code c else p = c)"

fun lit_match :: "bool \<Rightarrow> string \<Rightarrow> string \<Rightarrow> (string \<times> string) option" where
  "lit_match ic [] s = Some ([], s)"
| "lit_match ic (p # ps) [] = None"
| "lit_match ic (p # ps) (c # cs) =
     (if char_eq ic p c
      then (case lit_match ic ps cs of None \<Rightarrow> None | Some (m, r) \<Rightarrow> Some (c # m, r))
      else None)"

fun rep_class ::
  "(char \<Rightarrow> bool) \<Rightarrow> nat \<Rightarrow> nat option \<Rightarrow> string \<Rightarrow> (string \<times> string \<Rightarrow> 'a option) \<Rightarrow> 'a option"
where
  "rep_class p lo hi [] k = (if lo = 0 then k ([], []) else None)"
| "rep_class p lo hi (c # cs) k =
     (if hi \<noteq> Some 0 \<and> p c
      then (case rep_class p (lo - 1) (map_option (\<lambda>h. h - 1) hi) cs (\<lambda>(m, r). k (c # m, r)) of
              Some x \<Rightarrow> Some x
            | None \<Rightarrow> if lo = 0 then k ([], c # cs) else None)
      else if lo = 0 then k ([], c # cs) else None)"

fun rmatch ::
  "bool \<Rightarrow> rx \<Rightarrow> string \<Rightarrow> captures \<Rightarrow> (string \<times> string \<times> captures \<Rightarrow> 'a option) \<Rightarrow> 'a option"
where
  "rmatch ic Eps s caps k = k ([], s, caps)"
| "rmatch ic Eos s caps k = (if s = [] then k ([], [], caps) else None)"
| "rmatch ic (Lit l) s caps k =
     (case lit_match ic l s of None \<Rightarrow> None | Some (m, rest) \<Rightarrow> k (m, rest, caps))"
| "rmatch ic (Rep c lo hi) s caps k =
     rep_class (in_class c) lo hi s (\<lambda>(m, rest). k (m, rest, caps))"
| "rmatch ic (Seq a b) s caps k =
     rmatch ic a s caps (\<lambda>(m1, s1, c1). rmatch ic b s1 c1 (\<lambda>(m2, s2, c2). k (m1 @ m2, s2, c2)))"
| "rmatch ic (Alt a b) s caps k =
     (case rmatch ic a s caps k of Some x \<Rightarrow> Some x | None \<Rightarrow> rmatch ic b s caps k)"
| "rmatch ic (Opt a) s caps k =
     (case rmatch ic a s caps k of Some x \<Rightarrow> Some x | None \<Rightarrow> k ([], s, caps))"
| "rmatch ic (Grp i a) s caps k =
     rmatch ic a s caps (\<lambda>(m, rest, c1). k (m, rest, (i, m) # c1))"

declare rmatch.simps [simp del]
declare rep_class.simps [simp del]
declare lit_match.simps [simp del]

definition seqs :: "rx list \<Rightarrow> rx" where
  "seqs rs = foldr Seq rs Eps"

definition alts :: "rx list \<Rightarrow> rx" where
  "alts rs = foldr Alt (butlast rs) (last rs)"

text \<open>
  \<open>str.match(re)\<close> for a pattern that begins with \<open>^\<close> and has no \<open>g\<close> flag: the
  match is tried at the start only; the result is the matched text and the
  captures, a group that took no part being absent (\<open>undefined\<close>).
\<close>

definition match_start :: "bool \<Rightarrow> rx \<Rightarrow> string \<Rightarrow> (string \<times> captures) option" where
  "match_start ic r s = rmatch ic r s [] (\<lambda>(m, rest, caps). Some (m, caps))"

definition grp :: "captures \<Rightarrow> nat \<Rightarrow> string option" where
  "grp caps i = map_of caps i"

text \<open>
  \<open>str.match(re)\<close> for a pattern without \<open>^\<close>: the leftmost position at which
  the pattern matches.
\<close>

fun match_first :: "bool \<Rightarrow> rx \<Rightarrow> string \<Rightarrow> (string \<times> captures) option" where
  "match_first ic r [] = rmatch ic r [] [] (\<lambda>(m, rest, caps). Some (m, caps))"
| "match_first ic r (c # cs) =
     (case rmatch ic r (c # cs) [] (\<lambda>(m, rest, caps). Some (m, caps)) of
        Some x \<Rightarrow> Some x
      | None \<Rightarrow> match_first ic r cs)"


text \<open>
  The pattern matches the whole text, as it would with \<open>$\<close> at its end.
\<close>

definition full_match :: "bool \<Rightarrow> rx \<Rightarrow> string \<Rightarrow> bool" where
  "full_match ic r s = (match_start ic (Seq r Eos) s \<noteq> None)"

text \<open>The groups that take part in every match of a pattern.\<close>

fun must_groups :: "rx \<Rightarrow> nat set" where
  "must_groups Eps = {}"
| "must_groups Eos = {}"
| "must_groups (Lit l) = {}"
| "must_groups (Rep c lo hi) = {}"
| "must_groups (Seq a b) = must_groups a \<union> must_groups b"
| "must_groups (Alt a b) = must_groups a \<inter> must_groups b"
| "must_groups (Opt a) = {}"
| "must_groups (Grp i a) = insert i (must_groups a)"

text \<open>
  The matcher for a continuation that reads the remaining input and the captures
  only.
\<close>

definition rcaps ::
  "bool \<Rightarrow> rx \<Rightarrow> string \<Rightarrow> captures \<Rightarrow> (string \<Rightarrow> captures \<Rightarrow> 'a option) \<Rightarrow> 'a option"
where
  "rcaps ic r s caps k = rmatch ic r s caps (\<lambda>(m, rest, c). k rest c)"

section \<open>Citations (src/types, src/citation/parser.ts)\<close>

text \<open>
  \<open>ParsedCitation\<close>: an optional field that is absent is \<open>None\<close>. The type is
  the string the parser stores at run time.
\<close>

record ParsedCitation =
  pc_valid :: bool
  pc_type :: string
  pc_title :: "string option"
  pc_year :: "jsnum option"
  pc_number :: "jsnum option"
  pc_article :: "string option"
  pc_comma :: "string option"
  pc_suffix :: "string option"
  pc_document_id :: "string option"
  pc_error :: "string option"

text \<open>The exception of the host language for a method call on \<open>undefined\<close>.\<close>

datatype js_error = TypeError

definition TYPE_MAP :: "(string \<times> string) list" where
  "TYPE_MAP =
    [(''decreto legislativo'', ''dlgs''), (''d.lgs.'', ''dlgs''), (''d.lgs'', ''dlgs''),
     (''dlgs'', ''dlgs''), (''decreto-legge'', ''dl''), (''decreto legge'', ''dl''),
     (''d.l.'', ''dl''), (''d.l'', ''dl''), (''dl'', ''dl''), (''legge'', ''legge''),
     (''l.'', ''legge''), (''d.p.r.'', ''dpr''), (''dpr'', ''dpr''), (''r.d.'', ''rd''),
     (''rd'', ''rd''), (''regio decreto'', ''rd''), (''codice'', ''codice'')]"

definition ARTICLE_SUFFIXES :: "string list" where
  "ARTICLE_SUFFIXES =
    [''bis'', ''ter'', ''quater'', ''quinquies'', ''sexies'', ''septies'', ''octies'',
     ''novies'', ''decies'']"

text \<open>\<open>(?:bis|ter|quater|quinquies|sexies|septies|octies|novies|decies)\<close>\<close>

definition SUFFIX_ALT :: rx where
  "SUFFIX_ALT = alts (map Lit ARTICLE_SUFFIXES)"

text \<open>\<open>\d+(?:-(?:bis|ter|...))?\<close>\<close>

definition ARTICLE_RX :: rx where
  "ARTICLE_RX = Seq (Rep Digit 1 None) (Opt (Seq (Lit ''-'') SUFFIX_ALT))"

text \<open>\<open>^Art\.?\s+(\d+(?:-(?:bis|...))?)\<close>, the start of four of the five patterns.\<close>

definition ART_HEAD :: "rx list" where
  "ART_HEAD = [Lit ''Art'', Opt (Lit ''.''), Rep Space 1 None, Grp 1 ARTICLE_RX]"

text \<open>\<open>\s*(?:,\s*(?:comma\s+(\d+)\s*,\s*)?)?(?:,\s*)?\<close>\<close>

definition OPT_COMMA :: "rx list" where
  "OPT_COMMA =
    [Rep Space 0 None,
     Opt (seqs [Lit '','', Rep Space 0 None,
                Opt (seqs [Lit ''comma'', Rep Space 1 None, Grp 2 (Rep Digit 1 None),
                           Rep Space 0 None, Lit '','', Rep Space 0 None])]),
     Opt (seqs [Lit '','', Rep Space 0 None])]"

text \<open>\<open>D\.Lgs\.?|D\.L\.?|L\.?|D\.P\.R\.?|R\.D\.?|Legge|Decreto\s+legislativo|Decreto-legge\<close>\<close>

definition SHORT_TYPES :: rx where
  "SHORT_TYPES =
    alts [Seq (Lit ''D.Lgs'') (Opt (Lit ''.'')), Seq (Lit ''D.L'') (Opt (Lit ''.'')),
          Seq (Lit ''L'') (Opt (Lit ''.'')), Seq (Lit ''D.P.R'') (Opt (Lit ''.'')),
          Seq (Lit ''R.D'') (Opt (Lit ''.'')), Lit ''Legge'',
          seqs [Lit ''Decreto'', Rep Space 1 None, Lit ''legislativo''],
          Lit ''Decreto-legge'']"

text \<open>\<open>(TYPES)\s+(?:n\.?\s*)?(\d+)\s*\/\s*(\d{4})\<close>\<close>

definition SHORT_TAIL :: "rx list" where
  "SHORT_TAIL =
    [Grp 3 SHORT_TYPES, Rep Space 1 None,
     Opt (seqs [Lit ''n'', Opt (Lit ''.''), Rep Space 0 None]),
     Grp 4 (Rep Digit 1 None), Rep Space 0 None, Lit ''/'', Rep Space 0 None,
     Grp 5 (Rep Digit 4 (Some 4))]"

definition SHORT_CITATION :: rx where
  "SHORT_CITATION = seqs (ART_HEAD @ OPT_COMMA @ SHORT_TAIL)"

text \<open>\<open>\s*,\s*comma\s+(\d+)\s*,\s*\<close>\<close>

definition COMMA_PART :: "rx list" where
  "COMMA_PART =
    [Rep Space 0 None, Lit '','', Rep Space 0 None, Lit ''comma'', Rep Space 1 None,
     Grp 2 (Rep Digit 1 None), Rep Space 0 None, Lit '','', Rep Space 0 None]"

definition COMMA_CITATION :: rx where
  "COMMA_CITATION = seqs (ART_HEAD @ COMMA_PART @ SHORT_TAIL)"

text \<open>
  \<open>Decreto\s+legislativo|Decreto-legge|Decreto\s+legge|Legge|Regio\s+decreto|D\.P\.R\.?\<close>
\<close>

definition FULL_TYPES :: rx where
  "FULL_TYPES =
    alts [seqs [Lit ''Decreto'', Rep Space 1 None, Lit ''legislativo''],
          Lit ''Decreto-legge'',
          seqs [Lit ''Decreto'', Rep Space 1 None, Lit ''legge''],
          Lit ''Legge'',
          seqs [Lit ''Regio'', Rep Space 1 None, Lit ''decreto''],
          Seq (Lit ''D.P.R'') (Opt (Lit ''.''))]"

definition MONTHS :: rx where
  "MONTHS =
    alts (map Lit [''gennaio'', ''febbraio'', ''marzo'', ''aprile'', ''maggio'', ''giugno'',
                   ''luglio'', ''agosto'', ''settembre'', ''ottobre'', ''novembre'',
                   ''dicembre''])"

text \<open>\<open>(TYPES)\s+(\d{1,2})\s+(MONTHS)\s+(\d{4})\s*,?\s*n\.?\s*(\d+)\<close>\<close>

definition FULL_TAIL :: "rx list" where
  "FULL_TAIL =
    [Grp 3 FULL_TYPES, Rep Space 1 None, Grp 4 (Rep Digit 1 (Some 2)), Rep Space 1 None,
     Grp 5 MONTHS, Rep Space 1 None, Grp 6 (Rep Digit 4 (Some 4)), Rep Space 0 None,
     Opt (Lit '',''), Rep Space 0 None, Lit ''n'', Opt (Lit ''.''), Rep Space 0 None,
     Grp 7 (Rep Digit 1 None)]"

definition FULL_CITATION :: rx where
  "FULL_CITATION = seqs (ART_HEAD @ OPT_COMMA @ FULL_TAIL)"

text \<open>
  \<open>^(legge|dlgs|dl|dpr|rd)-(\d+)-(\d{4})\s*,?\s*art\.?\s*(\d+(?:-(?:...))?)(?:\s*,?\s*comma\s+(\d+))?\<close>
\<close>

definition ID_BASED_CITATION :: rx where
  "ID_BASED_CITATION =
    seqs [Grp 1 (alts (map Lit [''legge'', ''dlgs'', ''dl'', ''dpr'', ''rd''])), Lit ''-'',
          Grp 2 (Rep Digit 1 None), Lit ''-'', Grp 3 (Rep Digit 4 (Some 4)),
          Rep Space 0 None, Opt (Lit '',''), Rep Space 0 None, Lit ''art'', Opt (Lit ''.''),
          Rep Space 0 None, Grp 4 ARTICLE_RX,
          Opt (seqs [Rep Space 0 None, Opt (Lit '',''), Rep Space 0 None, Lit ''comma'',
                     Rep Space 1 None, Grp 5 (Rep Digit 1 None)])]"

text \<open>\<open>(Codice\s+\w+(?:\s+\w+)?)\<close>\<close>

definition CODICE_TAIL :: "rx list" where
  "CODICE_TAIL =
    [Grp 3 (seqs [Lit ''Codice'', Rep Space 1 None, Rep Word 1 None,
                  Opt (seqs [Rep Space 1 None, Rep Word 1 None])])]"

definition CODICE_CITATION :: rx where
  "CODICE_CITATION = seqs (ART_HEAD @ OPT_COMMA @ CODICE_TAIL)"

text \<open>\<open>/^(\d+)-(bis|ter|...)$/i\<close> of \<open>parseArticleRef\<close>.\<close>

definition ARTICLE_REF_RX :: rx where
  "ARTICLE_REF_RX = seqs [Grp 1 (Rep Digit 1 None), Lit ''-'', Grp 2 SUFFIX_ALT, Eos]"

definition parseArticleRef :: "string \<Rightarrow> string \<times> string option" where
  "parseArticleRef raw =
     (case match_start True ARTICLE_REF_RX raw of
        Some (m, caps) \<Rightarrow>
          (case (grp caps 1, grp caps 2) of
             (Some a, Some sfx) \<Rightarrow> (a, Some (toLowerCase sfx))
           | _ \<Rightarrow> (raw, None))
      | None \<Rightarrow> (raw, None))"

definition resolveDocType :: "string \<Rightarrow> string" where
  "resolveDocType raw =
     (let lower = trim (collapse_ws (toLowerCase raw))
      in case map_of TYPE_MAP lower of Some t \<Rightarrow> t | None \<Rightarrow> ''unknown'')"

text \<open>The text of a number inside a template string.\<close>

definition num_str :: "jsnum \<Rightarrow> string" where
  "num_str n = (case n of NaN \<Rightarrow> ''NaN''
                | Num i \<Rightarrow> if i < 0 then CHR ''-'' # dec (nat (- i)) else dec (nat i))"

definition buildDocumentId :: "string \<Rightarrow> jsnum \<Rightarrow> jsnum \<Rightarrow> string" where
  "buildDocumentId type number year = type @ ''-'' @ num_str number @ ''-'' @ num_str year"

text \<open>\<open>parseInt(match[i], 10)\<close>: an absent group reads as the text \<open>undefined\<close>.\<close>

definition parseInt_group :: "string option \<Rightarrow> jsnum" where
  "parseInt_group g = (case g of None \<Rightarrow> NaN | Some t \<Rightarrow> parseInt t)"

text \<open>\<open>match[i] || undefined\<close>\<close>

definition or_undefined :: "string option \<Rightarrow> string option" where
  "or_undefined g = (case g of Some t \<Rightarrow> if t = [] then None else Some t | None \<Rightarrow> None)"

definition blank_citation :: ParsedCitation where
  "blank_citation =
     \<lparr>pc_valid = False, pc_type = ''unknown'', pc_title = None, pc_year = None,
      pc_number = None, pc_article = None, pc_comma = None, pc_suffix = None,
      pc_document_id = None, pc_error = None\<rparr>"

text \<open>
  The result built from a match of a pattern whose groups 1, 2 and 3 are the
  article, the comma and the type, with the number and the year at the given
  indices; \<open>keep_comma\<close> is true where the source stores \<open>match[2]\<close> itself and
  false where it stores \<open>match[2] || undefined\<close>.
\<close>

definition numbered_result ::
  "captures \<Rightarrow> bool \<Rightarrow> nat \<Rightarrow> nat \<Rightarrow> js_error + ParsedCitation" where
  "numbered_result caps keep_comma number_ix year_ix =
     (case grp caps 1 of
        None \<Rightarrow> Inl TypeError
      | Some g1 \<Rightarrow>
          (let (article, suffix) = parseArticleRef g1;
               comma = (if keep_comma then grp caps 2 else or_undefined (grp caps 2))
           in case grp caps 3 of
                None \<Rightarrow> Inl TypeError
              | Some g3 \<Rightarrow>
                  (let docType = resolveDocType g3;
                       number = parseInt_group (grp caps number_ix);
                       year = parseInt_group (grp caps year_ix)
                   in Inr (blank_citation
                        \<lparr>pc_valid := True, pc_type := docType, pc_article := Some article,
                         pc_suffix := suffix, pc_comma := comma, pc_number := Some number,
                         pc_year := Some year,
                         pc_document_id := Some (buildDocumentId docType number year)\<rparr>))))"

definition id_based_result :: "captures \<Rightarrow> js_error + ParsedCitation" where
  "id_based_result caps =
     (case grp caps 1 of
        None \<Rightarrow> Inl TypeError
      | Some g1 \<Rightarrow>
          (let docType = toLowerCase g1;
               number = parseInt_group (grp caps 2);
               year = parseInt_group (grp caps 3)
           in case grp caps 4 of
                None \<Rightarrow> Inl TypeError
              | Some g4 \<Rightarrow>
                  (let (article, suffix) = parseArticleRef g4;
                       comma = or_undefined (grp caps 5)
                   in Inr (blank_citation
                        \<lparr>pc_valid := True, pc_type := docType, pc_article := Some article,
                         pc_suffix := suffix, pc_comma := comma, pc_number := Some number,
                         pc_year := Some year,
                         pc_document_id := Some (buildDocumentId docType number year)\<rparr>))))"

definition codice_result :: "captures \<Rightarrow> js_error + ParsedCitation" where
  "codice_result caps =
     (case grp caps 1 of
        None \<Rightarrow> Inl TypeError
      | Some g1 \<Rightarrow>
          (let (article, suffix) = parseArticleRef g1;
               comma = or_undefined (grp caps 2)
           in case grp caps 3 of
                None \<Rightarrow> Inl TypeError
              | Some g3 \<Rightarrow>
                  Inr (blank_citation
                        \<lparr>pc_valid := True, pc_type := ''codice'', pc_title := Some (trim g3),
                         pc_article := Some article, pc_suffix := suffix, pc_comma := comma\<rparr>)))"

definition invalid_result :: "string \<Rightarrow> ParsedCitation" where
  "invalid_result trimmed =
     blank_citation
       \<lparr>pc_error := Some (''Could not parse Italian citation: '' @ [CHR 0x22] @ trimmed @ [CHR 0x22])\<rparr>"

text \<open>
  \<open>parseCitation\<close>: the five patterns in the order of the source, each tried with
  \<open>trimmed.match\<close>; the first that matches builds the result. \<open>Inl\<close> is an
  exception leaving the function.
\<close>

definition parseCitation :: "string \<Rightarrow> js_error + ParsedCitation" where
  "parseCitation citation =
     (let trimmed = trim citation in
      case match_start True COMMA_CITATION trimmed of
        Some (m, caps) \<Rightarrow> numbered_result caps True 4 5
      | None \<Rightarrow>
      (case match_start True ID_BASED_CITATION trimmed of
        Some (m, caps) \<Rightarrow> id_based_result caps
      | None \<Rightarrow>
      (case match_start True CODICE_CITATION trimmed of
        Some (m, caps) \<Rightarrow> codice_result caps
      | None \<Rightarrow>
      (case match_start True FULL_CITATION trimmed of
        Some (m, caps) \<Rightarrow> numbered_result caps False 7 6
      | None \<Rightarrow>
      (case match_start True SHORT_CITATION trimmed of
        Some (m, caps) \<Rightarrow> numbered_result caps False 4 5
      | None \<Rightarrow> Inr (invalid_result trimmed))))))"

text \<open>
  The parser as an ordered table of grammars, each with the function that builds
  the result from a match: the first grammar of the table that matches decides.
\<close>

definition GRAMMARS :: "(rx \<times> (captures \<Rightarrow> js_error + ParsedCitation)) list" where
  "GRAMMARS =
    [(COMMA_CITATION, \<lambda>caps. numbered_result caps True 4 5),
     (ID_BASED_CITATION, id_based_result),
     (CODICE_CITATION, codice_result),
     (FULL_CITATION, \<lambda>caps. numbered_result caps False 7 6),
     (SHORT_CITATION, \<lambda>caps. numbered_result caps False 4 5)]"

fun first_grammar ::
  "(rx \<times> (captures \<Rightarrow> js_error + ParsedCitation)) list \<Rightarrow> string \<Rightarrow>
   (js_error + ParsedCitation) option"
where
  "first_grammar [] t = None"
| "first_grammar (g # gs) t =
     (case match_start True (fst g) t of
        Some (m, caps) \<Rightarrow> Some (snd g caps)
      | None \<Rightarrow> first_grammar gs t)"

section \<open>Formatting a citation (src/citation/formatter.ts)\<close>

datatype CitationFormat = Full | Short | Pinpoint

definition TYPE_FULL_NAME :: "(string \<times> string) list" where
  "TYPE_FULL_NAME =
    [(''dlgs'', ''Decreto legislativo''), (''dl'', ''Decreto-legge''), (''legge'', ''Legge''),
     (''dpr'', ''Decreto del Presidente della Repubblica''), (''rd'', ''Regio decreto''),
     (''codice'', [])]"

definition TYPE_SHORT_NAME :: "(string \<times> string) list" where
  "TYPE_SHORT_NAME =
    [(''dlgs'', ''D.Lgs.''), (''dl'', ''D.L.''), (''legge'', ''L.''), (''dpr'', ''D.P.R.''),
     (''rd'', ''R.D.''), (''codice'', [])]"

text \<open>Truthiness of an optional string and of an optional number.\<close>

definition truthy_str :: "string option \<Rightarrow> bool" where
  "truthy_str v = (case v of Some t \<Rightarrow> t \<noteq> [] | None \<Rightarrow> False)"

definition truthy_num :: "jsnum option \<Rightarrow> bool" where
  "truthy_num v = (case v of Some (Num i) \<Rightarrow> i \<noteq> 0 | _ \<Rightarrow> False)"

definition opt_str :: "string option \<Rightarrow> string" where
  "opt_str v = (case v of Some t \<Rightarrow> t | None \<Rightarrow> [])"

definition opt_num_str :: "jsnum option \<Rightarrow> string" where
  "opt_num_str v = (case v of Some n \<Rightarrow> num_str n | None \<Rightarrow> ''undefined'')"

definition buildArticleRef :: "ParsedCitation \<Rightarrow> string" where
  "buildArticleRef parsed =
     opt_str (pc_article parsed) @
     (if truthy_str (pc_suffix parsed) then ''-'' @ opt_str (pc_suffix parsed) else [])"

definition formatCitation :: "ParsedCitation \<Rightarrow> CitationFormat \<Rightarrow> string" where
  "formatCitation parsed format =
     (if \<not> pc_valid parsed \<or> \<not> truthy_str (pc_article parsed) then []
      else
        (let articleRef = buildArticleRef parsed;
             commaRef = (if truthy_str (pc_comma parsed)
                         then '', comma '' @ opt_str (pc_comma parsed) else [])
         in case format of
              Full \<Rightarrow>
                if pc_type parsed = ''codice'' \<and> truthy_str (pc_title parsed)
                then ''Art. '' @ articleRef @ commaRef @ '', '' @ opt_str (pc_title parsed)
                else
                  (let typeName = (case map_of TYPE_FULL_NAME (pc_type parsed) of
                                     Some n \<Rightarrow> n | None \<Rightarrow> pc_type parsed)
                   in if truthy_num (pc_number parsed) \<and> truthy_num (pc_year parsed)
                      then trim (''Art. '' @ articleRef @ commaRef @ '', '' @ typeName @ '' n. '' @
                                 opt_num_str (pc_number parsed) @ ''/'' @ opt_num_str (pc_year parsed))
                      else ''Art. '' @ articleRef @ commaRef)
            | Short \<Rightarrow>
                if pc_type parsed = ''codice'' \<and> truthy_str (pc_title parsed)
                then ''Art. '' @ articleRef @ commaRef @ '', '' @ opt_str (pc_title parsed)
                else
                  (let typeAbbrev = (case map_of TYPE_SHORT_NAME (pc_type parsed) of
                                       Some n \<Rightarrow> n | None \<Rightarrow> pc_type parsed)
                   in if truthy_num (pc_number parsed) \<and> truthy_num (pc_year parsed)
                      then trim (''Art. '' @ articleRef @ commaRef @ '', '' @ typeAbbrev @ '' '' @
                                 opt_num_str (pc_number parsed) @ ''/'' @ opt_num_str (pc_year parsed))
                      else ''Art. '' @ articleRef @ commaRef)
            | Pinpoint \<Rightarrow> ''Art. '' @ articleRef @ commaRef))"

section \<open>The store as the validator reads it\<close>













section \<open>Statute identifiers (src/utils/statute-id.ts)\<close>









section \<open>Validating a citation (src/citation/validator.ts)\<close>





section \<open>The session client (scripts/lib/fetcher.ts)\<close>

record Response =
  resp_status :: nat
  resp_body :: string
  resp_contentType :: "string option"
  resp_setCookies :: "string list"

record FetchResult =
  fr_status :: nat
  fr_body :: string
  fr_contentType :: string

text \<open>
  What one call of \<open>fetch\<close> can do: reject (the network failed) or resolve with
  a response. The network is the sequence of these outcomes, indexed by the
  attempt.
\<close>

datatype outcome = Rejected string | Reply Response

datatype fetch_error = NetworkError string | FailedAfterRetries string nat

text \<open>
  One \<open>set-cookie\<close> header: the stored cookies whose text starts with the
  header's name and \<open>=\<close> are dropped, and the header up to its first \<open>;\<close> is
  appended.
\<close>

definition store_cookie :: "string list \<Rightarrow> string \<Rightarrow> string list" where
  "store_cookie cookies sc =
     (let name = takeWhile (\<lambda>c. c \<noteq> CHR ''='') sc
      in filter (\<lambda>c. \<not> startsWith c (name @ ''='')) cookies @ [takeWhile (\<lambda>c. c \<noteq> CHR '';'') sc])"

record FetchRun =
  run_result :: "fetch_error + FetchResult"
  run_cookies :: "string list"
  run_backoffs :: "nat list"

text \<open>
  The loop \<open>for (let attempt = 0; attempt <= maxRetries; attempt++)\<close> of
  \<open>fetchWithSession\<close> from a given attempt on, and the statement after the loop.
  \<open>run_backoffs\<close> collects the delays slept, in milliseconds, one for each retry.
\<close>

function fetchAttempts ::
  "(nat \<Rightarrow> outcome) \<Rightarrow> string \<Rightarrow> nat \<Rightarrow> nat \<Rightarrow> string list \<Rightarrow> nat list \<Rightarrow> FetchRun"
where
  "fetchAttempts net url maxRetries attempt cookies backoffs =
     (if attempt \<le> maxRetries then
        (case net attempt of
           Rejected msg \<Rightarrow>
             \<lparr>run_result = Inl (NetworkError msg), run_cookies = cookies, run_backoffs = backoffs\<rparr>
         | Reply response \<Rightarrow>
             (let cookies' = foldl store_cookie cookies (resp_setCookies response) in
              if (resp_status response = 429 \<or> resp_status response \<ge> 500) \<and> attempt < maxRetries
              then fetchAttempts net url maxRetries (attempt + 1) cookies'
                     (backoffs @ [2 ^ (attempt + 1) * 1000])
              else \<lparr>run_result = Inr \<lparr>fr_status = resp_status response,
                                        fr_body = resp_body response,
                                        fr_contentType = (case resp_contentType response of
                                                            Some t \<Rightarrow> t | None \<Rightarrow> [])\<rparr>,
                    run_cookies = cookies', run_backoffs = backoffs\<rparr>))
      else \<lparr>run_result = Inl (FailedAfterRetries url maxRetries), run_cookies = cookies,
             run_backoffs = backoffs\<rparr>)"
  by pat_completeness auto
termination
  by (relation "measure (\<lambda>(net, url, maxRetries, attempt, cookies, backoffs). Suc maxRetries - attempt)") auto

declare fetchAttempts.simps [simp del]

definition fetchWithSession :: "(nat \<Rightarrow> outcome) \<Rightarrow> string \<Rightarrow> nat \<Rightarrow> string list \<Rightarrow> FetchRun" where
  "fetchWithSession net url maxRetries cookies = fetchAttempts net url maxRetries 0 cookies []"

subsection \<open>Article URLs of a landing page\<close>






text \<open>\<open>params.match(re)?.[1] ?? dflt\<close>\<close>

definition first_group_or :: "rx \<Rightarrow> string \<Rightarrow> string \<Rightarrow> string" where
  "first_group_or r s dflt =
     (case match_first False r s of
        None \<Rightarrow> dflt
      | Some (m, caps) \<Rightarrow> (case grp caps 1 of Some g \<Rightarrow> g | None \<Rightarrow> dflt))"



























subsection \<open>A directive read without the patterns\<close>










section \<open>Ingesting one Act (scripts/ingest.ts)\<close>

record ParsedProvision =
  pp_provision_ref :: string
  pp_section :: string
  pp_title :: string
  pp_content :: string

datatype act_status = in_force | amended | repealed

record ParsedAct =
  act_id :: string
  act_type :: string
  act_title :: string
  act_short_name :: string
  act_status :: act_status
  act_issued_date :: string
  act_url :: string
  act_provisions :: "ParsedProvision list"

record ArticleFetchResult =
  afr_url :: string
  afr_html :: string
  afr_status :: nat

text \<open>The fields of a census entry and of a key-law entry that \<open>ingestAct\<close> reads.\<close>

record CensusLaw =
  law_id :: string
  law_title :: string
  law_type :: string
  law_number :: nat
  law_year :: nat
  law_date :: string
  law_urn :: string
  law_url :: string

record IngestResult =
  ir_seed :: ParsedAct
  ir_provisions :: nat
  ir_failed :: bool

text \<open>
  The loop over the fetched articles: \<open>parseArticleHtml(html) ?? parseAttachmentArticleHtml(html)\<close>,
  kept when it is not null and its \<open>provision_ref\<close> is not in \<open>seenRefs\<close>. The two
  parsers are parameters: the loop treats them as functions from the markup to
  a provision or null.
\<close>

definition parse_step ::
  "(string \<Rightarrow> ParsedProvision option) \<Rightarrow> (string \<Rightarrow> ParsedProvision option) \<Rightarrow>
   ParsedProvision list \<times> string set \<Rightarrow> ArticleFetchResult \<Rightarrow> ParsedProvision list \<times> string set"
where
  "parse_step parseArticleHtml parseAttachmentArticleHtml st article =
     (case nullish (parseArticleHtml (afr_html article))
                   (parseAttachmentArticleHtml (afr_html article)) of
        None \<Rightarrow> st
      | Some parsed \<Rightarrow>
          if pp_provision_ref parsed \<in> snd st then st
          else (fst st @ [parsed], insert (pp_provision_ref parsed) (snd st)))"

definition parse_articles ::
  "(string \<Rightarrow> ParsedProvision option) \<Rightarrow> (string \<Rightarrow> ParsedProvision option) \<Rightarrow>
   ArticleFetchResult list \<Rightarrow> ParsedProvision list"
where
  "parse_articles parseArticleHtml parseAttachmentArticleHtml articles =
     fst (foldl (parse_step parseArticleHtml parseAttachmentArticleHtml) ([], {}) articles)"

text \<open>
  What "the first parsed article with a reference is kept and the later ones with
  that reference are discarded" leaves of a list of parsed provisions.
\<close>

fun first_by_ref :: "ParsedProvision list \<Rightarrow> ParsedProvision list" where
  "first_by_ref [] = []"
| "first_by_ref (p # ps) =
     p # first_by_ref (filter (\<lambda>q. pp_provision_ref q \<noteq> pp_provision_ref p) ps)"

definition seed_of :: "string \<Rightarrow> CensusLaw \<Rightarrow> ParsedProvision list \<Rightarrow> ParsedAct" where
  "seed_of ident law provisions =
     \<lparr>act_id = ident, act_type = law_type law, act_title = law_title law,
      act_short_name = law_title law, act_status = in_force, act_issued_date = law_date law,
      act_url = law_url law, act_provisions = provisions\<rparr>"

text \<open>
  \<open>ingestAct\<close>, given what \<open>fetchAllArticles(law.urn)\<close> did: \<open>Inl\<close> when it threw,
  \<open>Inr\<close> with the fetched articles otherwise. The result holds the seed written
  to the seed file. \<open>ident\<close> is the seed's id: \<open>law.id\<close> in the census-driven
  pipeline, \<open>`${act.type}-${act.number}-${act.year}`\<close> in the key-law pipeline.
\<close>

definition ingestAct_with ::
  "string \<Rightarrow> (string \<Rightarrow> ParsedProvision option) \<Rightarrow> (string \<Rightarrow> ParsedProvision option) \<Rightarrow>
   CensusLaw \<Rightarrow> string + ArticleFetchResult list \<Rightarrow> IngestResult"
where
  "ingestAct_with ident parseArticleHtml parseAttachmentArticleHtml law fetched =
     (case fetched of
        Inl msg \<Rightarrow> \<lparr>ir_seed = seed_of ident law [], ir_provisions = 0, ir_failed = True\<rparr>
      | Inr articles \<Rightarrow>
          if length articles = 0
          then \<lparr>ir_seed = seed_of ident law [], ir_provisions = 0, ir_failed = True\<rparr>
          else
            (let provisions = parse_articles parseArticleHtml parseAttachmentArticleHtml articles
             in \<lparr>ir_seed = seed_of ident law provisions, ir_provisions = length provisions,
                  ir_failed = False\<rparr>))"

definition ingestAct ::
  "(string \<Rightarrow> ParsedProvision option) \<Rightarrow> (string \<Rightarrow> ParsedProvision option) \<Rightarrow>
   CensusLaw \<Rightarrow> string + ArticleFetchResult list \<Rightarrow> IngestResult"
where
  "ingestAct = (\<lambda>pa pb law. ingestAct_with (law_id law) pa pb law)"

definition ingestAct_key_law ::
  "(string \<Rightarrow> ParsedProvision option) \<Rightarrow> (string \<Rightarrow> ParsedProvision option) \<Rightarrow>
   CensusLaw \<Rightarrow> string + ArticleFetchResult list \<Rightarrow> IngestResult"
where
  "ingestAct_key_law =
     (\<lambda>pa pb act. ingestAct_with
        (law_type act @ ''-'' @ dec (law_number act) @ ''-'' @ dec (law_year act)) pa pb act)"

section \<open>The article parsers (scripts/lib/parser.ts)\<close>

text \<open>
  \<^verbatim>\<open>
  const articleLabel = stripHtml(numMatch[1]).trim();
  const artNumMatch = articleLabel.match(/Art\.\s*(\d+(?:-(?:bis|ter|...|quindecies))?)/i);
  if (!artNumMatch) return null;
  const articleNum = artNumMatch[1];
  const provisionRef = `art${articleNum}`;
  ...
  if (!content || content.length < 5) return null;
  return { provision_ref: provisionRef, section: articleNum, title: heading, content };
  \<close>

  Both parsers read the article number with a pattern from a text they cut out
  of the markup, and build the reference from the number. The cutting and the
  cleaning of the markup (\<open>indexOf\<close>, \<open>stripHtml\<close>, \<open>decodeEntities\<close>,
  \<open>cleanAmendmentMarkers\<close>) is not modelled: a parser takes as a parameter the
  function that gives, for a markup, the text in which the number is searched
  (absent when the element that holds it is missing), the heading and the
  content. What is modelled is everything between that text and the provision.
\<close>

record ArticleMarkup =
  mk_label :: "string option"
  mk_heading :: string
  mk_content :: string

definition PROVISION_SUFFIXES :: "string list" where
  "PROVISION_SUFFIXES =
    [''bis'', ''ter'', ''quater'', ''quinquies'', ''sexies'', ''septies'', ''octies'',
     ''novies'', ''decies'', ''undecies'', ''duodecies'', ''terdecies'', ''quaterdecies'',
     ''quindecies'']"

text \<open>\<open>(\d+(?:-(?:bis|ter|...|quindecies))?)\<close>\<close>

definition ARTICLE_NUMBER :: rx where
  "ARTICLE_NUMBER =
     Grp 1 (Seq (Rep Digit 1 None) (Opt (Seq (Lit ''-'') (alts (map Lit PROVISION_SUFFIXES)))))"

text \<open>\<open>/Art\.\s*(\d+(?:-(?:...))?)/i\<close> of \<open>parseArticleHtml\<close>.\<close>

definition AKN_ARTICLE_RX :: rx where
  "AKN_ARTICLE_RX = seqs [Lit ''Art.'', Rep Space 0 None, ARTICLE_NUMBER]"

text \<open>\<open>/Art\.\s*(\d+(?:-(?:...))?)\s*\./i\<close> of \<open>parseAttachmentArticleHtml\<close>.\<close>

definition ATTACHMENT_ARTICLE_RX :: rx where
  "ATTACHMENT_ARTICLE_RX =
     seqs [Lit ''Art.'', Rep Space 0 None, ARTICLE_NUMBER, Rep Space 0 None, Lit ''.'']"

text \<open>The text a group contributes to a template literal.\<close>

definition group_text :: "captures \<Rightarrow> nat \<Rightarrow> string" where
  "group_text caps i = (case grp caps i of Some g \<Rightarrow> g | None \<Rightarrow> ''undefined'')"

definition provision_of_label :: "rx \<Rightarrow> ArticleMarkup \<Rightarrow> ParsedProvision option" where
  "provision_of_label pattern mk =
     (case mk_label mk of
        None \<Rightarrow> None
      | Some label \<Rightarrow>
          (case match_first True pattern label of
             None \<Rightarrow> None
           | Some (m, caps) \<Rightarrow>
               (let articleNum = group_text caps 1;
                    provisionRef = ''art'' @ articleNum;
                    content = mk_content mk
                in if content = [] \<or> length content < 5 then None
                   else Some \<lparr>pp_provision_ref = provisionRef, pp_section = articleNum,
                              pp_title = mk_heading mk, pp_content = content\<rparr>)))"

definition parseArticleHtml :: "(string \<Rightarrow> ArticleMarkup) \<Rightarrow> string \<Rightarrow> ParsedProvision option" where
  "parseArticleHtml markup html = provision_of_label AKN_ARTICLE_RX (markup html)"

definition parseAttachmentArticleHtml ::
  "(string \<Rightarrow> ArticleMarkup) \<Rightarrow> string \<Rightarrow> ParsedProvision option"
where
  "parseAttachmentArticleHtml markup html = provision_of_label ATTACHMENT_ARTICLE_RX (markup html)"

text \<open>
  The patterns that consume no white space, and the patterns all of whose groups
  are of that kind.
\<close>

fun spaceless :: "rx \<Rightarrow> bool" where
  "spaceless Eps = True"
| "spaceless Eos = True"
| "spaceless (Lit l) = (\<forall>p \<in> set l. 33 \<le> (of_char p :: nat) \<and> (of_char p :: nat) \<le> 126)"
| "spaceless (Rep c lo hi) = (c = Digit)"
| "spaceless (Seq a b) = (spaceless a \<and> spaceless b)"
| "spaceless (Alt a b) = (spaceless a \<and> spaceless b)"
| "spaceless (Opt a) = spaceless a"
| "spaceless (Grp i a) = spaceless a"

fun spaceless_groups :: "rx \<Rightarrow> bool" where
  "spaceless_groups Eps = True"
| "spaceless_groups Eos = True"
| "spaceless_groups (Lit l) = True"
| "spaceless_groups (Rep c lo hi) = True"
| "spaceless_groups (Seq a b) = (spaceless_groups a \<and> spaceless_groups b)"
| "spaceless_groups (Alt a b) = (spaceless_groups a \<and> spaceless_groups b)"
| "spaceless_groups (Opt a) = spaceless_groups a"
| "spaceless_groups (Grp i a) = (spaceless a \<and> spaceless_groups a)"

section \<open>Building the store (scripts/build-db.ts)\<close>

record ProvisionSeed =
  ps_provision_ref :: string
  ps_chapter :: "string option"
  ps_section :: string
  ps_title :: "string option"
  ps_content :: string
  ps_metadata :: "string option"

record ProvisionDedupStats =
  duplicate_refs :: nat
  conflicting_duplicates :: nat

definition normalizeWhitespace :: "string \<Rightarrow> string" where
  "normalizeWhitespace text = trim (collapse_ws text)"

definition pickPreferredProvision :: "ProvisionSeed \<Rightarrow> ProvisionSeed \<Rightarrow> ProvisionSeed" where
  "pickPreferredProvision existing incoming =
     (let existingContent = normalizeWhitespace (ps_content existing);
          incomingContent = normalizeWhitespace (ps_content incoming)
      in if length incomingContent > length existingContent
         then incoming\<lparr>ps_title := nullish (ps_title incoming) (ps_title existing)\<rparr>
         else existing\<lparr>ps_title := nullish (ps_title existing) (ps_title incoming)\<rparr>)"

text \<open>
  The body of the loop of \<open>dedupeProvisions\<close>; \<open>byRef\<close> is the \<open>Map\<close>, an
  association list in insertion order, in which setting a present key keeps its
  place.
\<close>

definition dedupe_step ::
  "(string \<times> ProvisionSeed) list \<times> ProvisionDedupStats \<Rightarrow> ProvisionSeed \<Rightarrow>
   (string \<times> ProvisionSeed) list \<times> ProvisionDedupStats"
where
  "dedupe_step st provision =
     (let byRef = fst st; stats = snd st;
          ref = trim (ps_provision_ref provision)
      in case map_of byRef ref of
           None \<Rightarrow> (AList.update ref (provision\<lparr>ps_provision_ref := ref\<rparr>) byRef, stats)
         | Some existing \<Rightarrow>
             (AList.update ref (pickPreferredProvision existing provision) byRef,
              stats\<lparr>duplicate_refs := duplicate_refs stats + 1,
                    conflicting_duplicates :=
                      conflicting_duplicates stats +
                      (if normalizeWhitespace (ps_content existing) \<noteq>
                          normalizeWhitespace (ps_content provision) then 1 else 0)\<rparr>))"

definition dedupeProvisions :: "ProvisionSeed list \<Rightarrow> ProvisionSeed list \<times> ProvisionDedupStats" where
  "dedupeProvisions provisions =
     (let st = foldl dedupe_step ([], \<lparr>duplicate_refs = 0, conflicting_duplicates = 0\<rparr>) provisions
      in (map snd (fst st), snd st))"

text \<open>
  The white-space-normalised content said without \<open>replace\<close> and \<open>trim\<close>: the
  words of the text, its maximal runs of characters that are not white space,
  joined by single spaces.
\<close>

function ws_words :: "string \<Rightarrow> string list" where
  "ws_words [] = []"
| "ws_words (c # cs) =
     (if is_space c then ws_words cs
      else (c # takeWhile (\<lambda>x. \<not> is_space x) cs) # ws_words (dropWhile (\<lambda>x. \<not> is_space x) cs))"

  by pat_completeness auto

termination ws_words
  by (relation "measure length") (auto simp: length_dropWhile_le le_imp_less_Suc)

fun join_words :: "string list \<Rightarrow> string" where
  "join_words [] = []"
| "join_words [w] = w"
| "join_words (w # v # ws) = w @ '' '' @ join_words (v # ws)"

definition normalized_content :: "string \<Rightarrow> string" where
  "normalized_content text = join_words (ws_words text)"

text \<open>
  A provision of a seed file as the builder reads it back: the four fields the
  ingestion wrote, no chapter and no metadata.
\<close>

definition seed_provision :: "ParsedProvision \<Rightarrow> ProvisionSeed" where
  "seed_provision p =
     \<lparr>ps_provision_ref = pp_provision_ref p, ps_chapter = None, ps_section = pp_section p,
      ps_title = Some (pp_title p), ps_content = pp_content p, ps_metadata = None\<rparr>"

subsection \<open>Cross-reference years\<close>

text \<open>
  \<^verbatim>\<open>
  function normalizeEuYear(rawYear: string): number {
    const parsed = Number.parseInt(rawYear, 10);
    if (Number.isNaN(parsed)) return 0;
    if (rawYear.length === 2) {
      return parsed >= 50 ? 1900 + parsed : 2000 + parsed;
    }
    return parsed;
  }
  \<close>
\<close>

definition normalizeEuYear :: "string \<Rightarrow> int" where
  "normalizeEuYear rawYear =
     (case parseInt rawYear of
        NaN \<Rightarrow> 0
      | Num parsed \<Rightarrow>
          if length rawYear = 2
          then (if parsed \<ge> 50 then 1900 + parsed else 2000 + parsed)
          else parsed)"

section \<open>The rate-limit gate under the event loop (scripts/lib/fetcher.ts)\<close>

text \<open>
  \<^verbatim>\<open>
  const MIN_DELAY_MS = 150;
  let lastRequestTime = 0;

  async function rateLimit(): Promise<void> {
    const now = Date.now();
    const elapsed = now - lastRequestTime;
    if (elapsed < MIN_DELAY_MS) {
      await new Promise(resolve => setTimeout(resolve, MIN_DELAY_MS - elapsed));
    }
    lastRequestTime = Date.now();
  }
  \<close>

  The host runs one piece of code at a time, and a caller gives up control only at
  an \<open>await\<close>. A call of \<open>rateLimit\<close> is therefore two uninterrupted pieces: the
  entry, which reads the clock and the shared \<open>lastRequestTime\<close> and either
  finishes at once or registers a timer; and the resumption after the timer, which
  writes \<open>lastRequestTime\<close>. The state of the loop is the clock in milliseconds,
  the shared variable, the pending timers (due time and caller, in the order of
  registration) and the log of the requests issued (caller and time). The request
  of \<open>fetchWithSession\<close> is issued in the continuation that directly follows the
  gate, so its time is the time at which the gate is left.
\<close>

definition MIN_DELAY_MS :: int where
  "MIN_DELAY_MS = 150"

record Loop =
  clock :: int
  lastRequestTime :: int
  timers :: "(int \<times> nat) list"
  issued :: "(nat \<times> int) list"

definition rateLimit_resume :: "nat \<Rightarrow> Loop \<Rightarrow> Loop" where
  "rateLimit_resume caller s =
     s\<lparr>lastRequestTime := clock s, issued := issued s @ [(caller, clock s)]\<rparr>"

definition rateLimit_enter :: "nat \<Rightarrow> Loop \<Rightarrow> Loop" where
  "rateLimit_enter caller s =
     (let now = clock s;
          elapsed = now - lastRequestTime s
      in if elapsed < MIN_DELAY_MS
         then s\<lparr>timers := timers s @ [(now + (MIN_DELAY_MS - elapsed), caller)]\<rparr>
         else rateLimit_resume caller s)"

text \<open>
  The timer that fires next is the one due first, the one registered first among
  timers due at the same time. The clock is at its due time when it fires, unless
  it is already past it.
\<close>

definition earliest :: "int \<times> nat \<Rightarrow> (int \<times> nat) list \<Rightarrow> int \<times> nat" where
  "earliest x xs = foldl (\<lambda>m y. if fst y < fst m then y else m) x xs"

primrec fire_timers :: "nat \<Rightarrow> Loop \<Rightarrow> Loop" where
  "fire_timers 0 s = s"
| "fire_timers (Suc k) s =
     (case timers s of
        [] \<Rightarrow> s
      | x # xs \<Rightarrow>
          (let t = earliest x xs;
               s' = s\<lparr>clock := max (clock s) (fst t), timers := remove1 t (timers s)\<rparr>
           in fire_timers k (rateLimit_resume (snd t) s')))"

text \<open>
  \<^verbatim>\<open>
  const batchResults = await Promise.all(batch.map(async (url) => {
    try {
      const result = await fetchWithSession(url);
  \<close>

  \<open>batch.map\<close> starts the callers of one batch one after the other without
  returning to the loop: each runs \<open>fetchWithSession\<close> up to its first \<open>await\<close>,
  which is the gate. Then the timers fire.
\<close>

definition start_batch :: "nat list \<Rightarrow> Loop \<Rightarrow> Loop" where
  "start_batch callers s = foldl (\<lambda>s caller. rateLimit_enter caller s) s callers"

definition run_batch :: "nat list \<Rightarrow> Loop \<Rightarrow> Loop" where
  "run_batch callers s =
     (let s1 = start_batch callers s in fire_timers (length (timers s1)) s1)"

section \<open>Properties of the year normalisation\<close>

lemma is_digit_not_space: "is_digit c \<Longrightarrow> \<not> is_space c"
  by (auto simp: is_digit_def is_space_def)

lemma is_digit_not_sign: "is_digit c \<Longrightarrow> c \<noteq> CHR ''-'' \<and> c \<noteq> CHR ''+''"
  by (auto simp: is_digit_def)

lemma parseInt_digits:
  assumes "ds \<noteq> []" and "\<forall>c \<in> set ds. is_digit c"
  shows "parseInt ds = Num (int (digits_value ds))"
proof -
  obtain c r where ds: "ds = c # r" using assms(1) by (cases ds) auto
  have c: "is_digit c" using assms(2) ds by simp
  have tw: "takeWhile is_digit (c # r) = c # r"
    using assms(2) ds by (simp add: takeWhile_eq_all_conv)
  have dw: "dropWhile is_space (c # r) = c # r" using c is_digit_not_space by simp
  show ?thesis
    using is_digit_not_sign[OF c]
    unfolding parseInt_def ds dw by (simp add: Let_def tw del: takeWhile.simps)
qed

text \<open>
  Claim C7. A year token of an extracted cross-reference is a run of decimal
  digits. A two-digit token of value \<open>v\<close> becomes \<open>1900 + v\<close> when \<open>v \<ge> 50\<close>
  and \<open>2000 + v\<close> when \<open>v < 50\<close>; a token of any other length keeps its
  value; \<open>"16"\<close> gives 2016 and \<open>"96"\<close> gives 1996.
\<close>

theorem normalizeEuYear_pivot:
  assumes "tok \<noteq> []" and "\<forall>c \<in> set tok. is_digit c"
  shows "normalizeEuYear tok =
           (if length tok = 2
            then (if digits_value tok \<ge> 50 then 1900 + int (digits_value tok)
                  else 2000 + int (digits_value tok))
            else int (digits_value tok))
         \<and> normalizeEuYear ''16'' = 2016 \<and> normalizeEuYear ''96'' = 1996"
proof -
  have p: "parseInt tok = Num (int (digits_value tok))"
    using parseInt_digits[OF assms] .
  have g: "normalizeEuYear tok =
           (if length tok = 2
            then (if digits_value tok \<ge> 50 then 1900 + int (digits_value tok)
                  else 2000 + int (digits_value tok))
            else int (digits_value tok))"
    by (simp add: normalizeEuYear_def p)
  have a: "normalizeEuYear ''16'' = 2016"
    by (simp add: normalizeEuYear_def parseInt_def is_space_def is_digit_def
        digits_value_def digit_val_def)
  have b: "normalizeEuYear ''96'' = 1996"
    by (simp add: normalizeEuYear_def parseInt_def is_space_def is_digit_def
        digits_value_def digit_val_def)
  show ?thesis using g a b by blast
qed

theorem normalizeEuYear_pivot_witness:
  "normalizeEuYear ''87'' = 1987 \<and> normalizeEuYear ''07'' = 2007
   \<and> normalizeEuYear ''2016'' = 2016"
proof -
  have v: "digits_value ''87'' = 87" "digits_value ''07'' = 7"
    "digits_value ''2016'' = 2016"
    by (simp_all add: digits_value_def digit_val_def)
  show ?thesis
    using normalizeEuYear_pivot[of "''87''"] normalizeEuYear_pivot[of "''07''"]
      normalizeEuYear_pivot[of "''2016''"] v
    by (simp add: is_digit_def)
qed

section \<open>Ingestion: the seed of one Act\<close>

lemma seed_of_status: "act_status (seed_of ident law provisions) = in_force"
  by (simp add: seed_of_def)

lemma ingestAct_with_status:
  "act_status (ir_seed (ingestAct_with ident pa pb law fetched)) = in_force"
  by (cases fetched) (simp_all add: ingestAct_with_def seed_of_status Let_def)

text \<open>
  Claim C9. Whatever the fetch did and whatever the articles parse to, the seed
  that \<open>ingestAct\<close> writes has status \<open>in_force\<close>, in the census-driven pipeline
  and in the key-law pipeline; it is never \<open>amended\<close> or \<open>repealed\<close> (the seed's
  type has no fourth status).
\<close>

theorem ingestAct_seed_in_force:
  "act_status (ir_seed (ingestAct pa pb law fetched)) = in_force
   \<and> act_status (ir_seed (ingestAct_key_law pa pb law fetched)) = in_force
   \<and> act_status (ir_seed (ingestAct pa pb law fetched)) \<notin> {amended, repealed}
   \<and> act_status (ir_seed (ingestAct_key_law pa pb law fetched)) \<notin> {amended, repealed}"
  by (simp add: ingestAct_def ingestAct_key_law_def ingestAct_with_status)

theorem ingestAct_seed_in_force_witness:
  "act_status (ir_seed (ingestAct (\<lambda>h. None) (\<lambda>h. None)
      \<lparr>law_id = ''dlgs-196-2003'', law_title = ''Codice Privacy'', law_type = ''dlgs'',
       law_number = 196, law_year = 2003, law_date = ''2003-06-30'', law_urn = ''urn'',
       law_url = ''url''\<rparr>
      (Inl ''Landing page returned HTTP 500''))) = in_force"
  using ingestAct_seed_in_force by blast


subsection \<open>First parse wins\<close>

lemma parse_step_snd:
  "snd st = set (map pp_provision_ref (fst st)) \<Longrightarrow>
   snd (parse_step pa pb st a) = set (map pp_provision_ref (fst (parse_step pa pb st a)))"
  by (auto simp: parse_step_def split: option.splits)

lemma parse_step_distinct:
  "snd st = set (map pp_provision_ref (fst st)) \<Longrightarrow> distinct (map pp_provision_ref (fst st)) \<Longrightarrow>
   distinct (map pp_provision_ref (fst (parse_step pa pb st a)))"
  by (auto simp: parse_step_def split: option.splits)

lemma parse_fold_inv:
  "snd st = set (map pp_provision_ref (fst st)) \<Longrightarrow> distinct (map pp_provision_ref (fst st)) \<Longrightarrow>
   snd (foldl (parse_step pa pb) st as) = set (map pp_provision_ref (fst (foldl (parse_step pa pb) st as)))
   \<and> distinct (map pp_provision_ref (fst (foldl (parse_step pa pb) st as)))"
proof (induction as arbitrary: st)
  case Nil
  then show ?case by simp
next
  case (Cons a as)
  show ?case
    using Cons.IH[OF parse_step_snd[OF Cons.prems(1)] parse_step_distinct[OF Cons.prems(1) Cons.prems(2)]]
    by simp
qed

lemma parse_articles_distinct: "distinct (map pp_provision_ref (parse_articles pa pb as))"
  using parse_fold_inv[of "([], {})" pa pb as] by (simp add: parse_articles_def)

text \<open>The parsed articles, in fetch order, before any is dropped.\<close>

lemma parse_fold_first:
  assumes "snd st = set (map pp_provision_ref (fst st))"
  shows "fst (foldl (parse_step pa pb) st as) =
         fst st @ first_by_ref
           (filter (\<lambda>p. pp_provision_ref p \<notin> snd st)
              (List.map_filter (\<lambda>a. nullish (pa (afr_html a)) (pb (afr_html a))) as))"
  using assms
proof (induction as arbitrary: st)
  case Nil
  then show ?case by (simp add: List.map_filter_simps)
next
  case (Cons a as)
  let ?r = "nullish (pa (afr_html a)) (pb (afr_html a))"
  show ?case
  proof (cases ?r)
    case None
    then have st: "parse_step pa pb st a = st" by (simp add: parse_step_def)
    show ?thesis using Cons.IH[OF Cons.prems] None
      by (simp add: st List.map_filter_simps)
  next
    case (Some p)
    show ?thesis
    proof (cases "pp_provision_ref p \<in> snd st")
      case True
      then have st: "parse_step pa pb st a = st" using Some by (simp add: parse_step_def)
      show ?thesis using Cons.IH[OF Cons.prems] Some True
        by (simp add: st List.map_filter_simps)
    next
      case False
      let ?st' = "(fst st @ [p], insert (pp_provision_ref p) (snd st))"
      have st: "parse_step pa pb st a = ?st'" using Some False by (simp add: parse_step_def)
      have inv: "snd ?st' = set (map pp_provision_ref (fst ?st'))" using Cons.prems by simp
      show ?thesis using Cons.IH[OF inv] Some False
        by (simp add: st List.map_filter_simps conj_commute)
    qed
  qed
qed

lemma parse_articles_first:
  "parse_articles pa pb as =
   first_by_ref (List.map_filter (\<lambda>a. nullish (pa (afr_html a)) (pb (afr_html a))) as)"
  using parse_fold_first[of "([], {})" pa pb as] by (simp add: parse_articles_def)

subsection \<open>White space\<close>

lemma trim_shape: "trim s = [] \<or> (\<not> is_space (hd (trim s)) \<and> \<not> is_space (last (trim s)))"
proof -
  define t where "t = dropWhile is_space s"
  define u where "u = dropWhile is_space (rev t)"
  have tr: "trim s = rev u" by (simp add: trim_def t_def u_def)
  show ?thesis
  proof (cases "u = []")
    case True
    then show ?thesis by (simp add: tr)
  next
    case False
    then have hu: "\<not> is_space (hd u)" unfolding u_def using hd_dropWhile by blast
    have "rev t = takeWhile is_space (rev t) @ u" by (simp add: u_def)
    then have "t = rev u @ rev (takeWhile is_space (rev t))"
      by (metis rev_append rev_rev_ident)
    then have "hd t = hd (rev u)" using False by (metis hd_append2 rev_is_Nil_conv)
    moreover have "t \<noteq> []" using False u_def by auto
    then have "\<not> is_space (hd t)" unfolding t_def using hd_dropWhile by blast
    ultimately have "\<not> is_space (hd (rev u))" by simp
    moreover have "last (rev u) = hd u" using False by (simp add: last_rev)
    ultimately show ?thesis using hu by (simp add: tr)
  qed
qed

lemma trim_fixed:
  assumes "s = [] \<or> (\<not> is_space (hd s) \<and> \<not> is_space (last s))"
  shows "trim s = s"
proof (cases s)
  case Nil
  then show ?thesis by (simp add: trim_def)
next
  case (Cons c cs)
  then have h: "\<not> is_space (hd s)" and l: "\<not> is_space (last s)" using assms by auto
  have 1: "dropWhile is_space s = s" using h Cons by simp
  have "rev s \<noteq> []" using Cons by simp
  moreover have "hd (rev s) = last s" using Cons by (simp add: hd_rev)
  ultimately have 2: "dropWhile is_space (rev s) = rev s"
    using l by (metis dropWhile.simps(2) list.collapse)
  show ?thesis by (simp add: trim_def 1 2)
qed

lemma trim_idem: "trim (trim s) = trim s"
  using trim_fixed[OF trim_shape] .


section \<open>Deduplication of provisions at build\<close>

lemma pick_ref:
  "ps_provision_ref (pickPreferredProvision e p) = ps_provision_ref e \<or>
   ps_provision_ref (pickPreferredProvision e p) = ps_provision_ref p"
  by (simp add: pickPreferredProvision_def Let_def)

lemma pick_length:
  "length (normalizeWhitespace (ps_content (pickPreferredProvision e p))) =
   max (length (normalizeWhitespace (ps_content e))) (length (normalizeWhitespace (ps_content p)))"
  by (simp add: pickPreferredProvision_def Let_def)

lemma dedupe_step_map_of:
  "map_of (fst (dedupe_step st p)) =
   (map_of (fst st))(trim (ps_provision_ref p) \<mapsto>
      (case map_of (fst st) (trim (ps_provision_ref p)) of
         None \<Rightarrow> p\<lparr>ps_provision_ref := trim (ps_provision_ref p)\<rparr>
       | Some e \<Rightarrow> pickPreferredProvision e p))"
  by (simp add: dedupe_step_def Let_def update_conv' split: option.splits)

lemma dedupe_step_distinct:
  "distinct (map fst (fst st)) \<Longrightarrow> distinct (map fst (fst (dedupe_step st p)))"
  by (simp add: dedupe_step_def Let_def distinct_update split: option.splits)

lemma dedupe_step_keys:
  "fst ` set (fst (dedupe_step st p)) = insert (trim (ps_provision_ref p)) (fst ` set (fst st))"
  by (simp add: dedupe_step_def Let_def dom_update split: option.splits)

lemma dedupe_step_trimmed:
  assumes "\<forall>k v. map_of (fst st) k = Some v \<longrightarrow> trim (ps_provision_ref v) = k"
  shows "\<forall>k v. map_of (fst (dedupe_step st p)) k = Some v \<longrightarrow> trim (ps_provision_ref v) = k"
proof (intro allI impI)
  fix k v
  assume h: "map_of (fst (dedupe_step st p)) k = Some v"
  show "trim (ps_provision_ref v) = k"
  proof (cases "k = trim (ps_provision_ref p)")
    case False
    then show ?thesis using h assms by (simp add: dedupe_step_map_of)
  next
    case True
    show ?thesis
    proof (cases "map_of (fst st) k")
      case None
      then show ?thesis using h True by (auto simp: dedupe_step_map_of trim_idem)
    next
      case (Some e)
      then have v: "v = pickPreferredProvision e p" using h True by (simp add: dedupe_step_map_of)
      have "trim (ps_provision_ref e) = k" using assms Some by simp
      then show ?thesis using pick_ref[of e p] True v by auto
    qed
  qed
qed

lemma dedupe_fold_inv:
  assumes "distinct (map fst (fst st))"
    and "\<forall>k v. map_of (fst st) k = Some v \<longrightarrow> trim (ps_provision_ref v) = k"
  shows "distinct (map fst (fst (foldl dedupe_step st ps)))
       \<and> (\<forall>k v. map_of (fst (foldl dedupe_step st ps)) k = Some v \<longrightarrow> trim (ps_provision_ref v) = k)
       \<and> fst ` set (fst (foldl dedupe_step st ps)) =
           fst ` set (fst st) \<union> (\<lambda>p. trim (ps_provision_ref p)) ` set ps"
  using assms
proof (induction ps arbitrary: st)
  case Nil
  then show ?case by simp
next
  case (Cons p ps)
  have "distinct (map fst (fst (foldl dedupe_step (dedupe_step st p) ps)))
       \<and> (\<forall>k v. map_of (fst (foldl dedupe_step (dedupe_step st p) ps)) k = Some v
             \<longrightarrow> trim (ps_provision_ref v) = k)
       \<and> fst ` set (fst (foldl dedupe_step (dedupe_step st p) ps)) =
           fst ` set (fst (dedupe_step st p)) \<union> (\<lambda>p. trim (ps_provision_ref p)) ` set ps"
    by (rule Cons.IH[OF dedupe_step_distinct[OF Cons.prems(1)] dedupe_step_trimmed[OF Cons.prems(2)]])
  then show ?case by (auto simp: dedupe_step_keys)
qed

lemma keyed_values:
  assumes "distinct (map fst al)"
    and "\<forall>k v. map_of al k = Some v \<longrightarrow> f v = k"
  shows "map f (map snd al) = map fst al"
proof -
  have "\<And>x. x \<in> set al \<Longrightarrow> f (snd x) = fst x"
  proof -
    fix x assume "x \<in> set al"
    then have "map_of al (fst x) = Some (snd x)"
      using assms(1) by (metis map_of_eq_Some_iff prod.collapse)
    then show "f (snd x) = fst x" using assms(2) by blast
  qed
  then show ?thesis by simp
qed

lemma dedupe_distinct:
  "distinct (map (\<lambda>v. trim (ps_provision_ref v)) (fst (dedupeProvisions ps)))"
  and dedupe_tokens:
  "set (map (\<lambda>v. trim (ps_provision_ref v)) (fst (dedupeProvisions ps))) =
   (\<lambda>p. trim (ps_provision_ref p)) ` set ps"
proof -
  let ?st = "foldl dedupe_step ([], \<lparr>duplicate_refs = 0, conflicting_duplicates = 0\<rparr>) ps"
  have inv: "distinct (map fst (fst ?st))
       \<and> (\<forall>k v. map_of (fst ?st) k = Some v \<longrightarrow> trim (ps_provision_ref v) = k)
       \<and> fst ` set (fst ?st) = fst ` set [] \<union> (\<lambda>p. trim (ps_provision_ref p)) ` set ps"
    using dedupe_fold_inv[of "([], \<lparr>duplicate_refs = 0, conflicting_duplicates = 0\<rparr>)" ps] by simp
  have kv: "map (\<lambda>v. trim (ps_provision_ref v)) (map snd (fst ?st)) = map fst (fst ?st)"
    using keyed_values[of "fst ?st" "\<lambda>v. trim (ps_provision_ref v)"] inv by blast
  show "distinct (map (\<lambda>v. trim (ps_provision_ref v)) (fst (dedupeProvisions ps)))"
    unfolding dedupeProvisions_def Let_def fst_conv kv using inv by blast
  have "set (map fst (fst ?st)) = (\<lambda>p. trim (ps_provision_ref p)) ` set ps"
    using inv by simp
  then show "set (map (\<lambda>v. trim (ps_provision_ref v)) (fst (dedupeProvisions ps))) =
   (\<lambda>p. trim (ps_provision_ref p)) ` set ps"
    unfolding dedupeProvisions_def Let_def fst_conv kv .
qed

text \<open>The survivor of a reference is at least as long as every provision with that reference.\<close>

lemma dedupe_step_longest:
  assumes "map_of (fst st) k = Some v"
  shows "\<exists>w. map_of (fst (dedupe_step st p)) k = Some w \<and>
             length (normalizeWhitespace (ps_content v)) \<le> length (normalizeWhitespace (ps_content w))"
  using assms by (auto simp: dedupe_step_map_of pick_length)

lemma dedupe_step_covers:
  "\<exists>w. map_of (fst (dedupe_step st p)) (trim (ps_provision_ref p)) = Some w \<and>
        length (normalizeWhitespace (ps_content p)) \<le> length (normalizeWhitespace (ps_content w))"
  by (auto simp: dedupe_step_map_of pick_length split: option.splits)

lemma dedupe_fold_longest:
  assumes "map_of (fst st) k = Some v"
  shows "\<exists>w. map_of (fst (foldl dedupe_step st ps)) k = Some w \<and>
             length (normalizeWhitespace (ps_content v)) \<le> length (normalizeWhitespace (ps_content w))"
  using assms
proof (induction ps arbitrary: st v)
  case Nil
  then show ?case by simp
next
  case (Cons p ps)
  obtain w where w: "map_of (fst (dedupe_step st p)) k = Some w"
    and le: "length (normalizeWhitespace (ps_content v)) \<le> length (normalizeWhitespace (ps_content w))"
    using dedupe_step_longest[OF Cons.prems] by blast
  obtain w' where "map_of (fst (foldl dedupe_step (dedupe_step st p) ps)) k = Some w'"
    and "length (normalizeWhitespace (ps_content w)) \<le> length (normalizeWhitespace (ps_content w'))"
    using Cons.IH[OF w] by blast
  then show ?case using le by (intro exI[of _ w']) simp
qed

lemma dedupe_fold_covers:
  assumes "p \<in> set ps"
  shows "\<exists>w. map_of (fst (foldl dedupe_step st ps)) (trim (ps_provision_ref p)) = Some w \<and>
             length (normalizeWhitespace (ps_content p)) \<le> length (normalizeWhitespace (ps_content w))"
  using assms
proof (induction ps arbitrary: st)
  case Nil
  then show ?case by simp
next
  case (Cons q ps)
  show ?case
  proof (cases "p = q")
    case True
    obtain w where w: "map_of (fst (dedupe_step st q)) (trim (ps_provision_ref q)) = Some w"
      and le: "length (normalizeWhitespace (ps_content q)) \<le> length (normalizeWhitespace (ps_content w))"
      using dedupe_step_covers by blast
    obtain w' where "map_of (fst (foldl dedupe_step (dedupe_step st q) ps)) (trim (ps_provision_ref q)) = Some w'"
      and "length (normalizeWhitespace (ps_content w)) \<le> length (normalizeWhitespace (ps_content w'))"
      using dedupe_fold_longest[OF w] by blast
    then show ?thesis using le True by (intro exI[of _ w']) simp
  next
    case False
    then have "p \<in> set ps" using Cons.prems by simp
    then show ?thesis using Cons.IH by simp
  qed
qed

lemma dedupe_longest:
  assumes "p \<in> set ps"
  shows "\<exists>w \<in> set (fst (dedupeProvisions ps)).
           trim (ps_provision_ref w) = trim (ps_provision_ref p) \<and>
           length (normalizeWhitespace (ps_content p)) \<le> length (normalizeWhitespace (ps_content w))"
proof -
  let ?st = "foldl dedupe_step ([], \<lparr>duplicate_refs = 0, conflicting_duplicates = 0\<rparr>) ps"
  obtain w where w: "map_of (fst ?st) (trim (ps_provision_ref p)) = Some w"
    and le: "length (normalizeWhitespace (ps_content p)) \<le> length (normalizeWhitespace (ps_content w))"
    using dedupe_fold_covers[OF assms] by blast
  have inv: "\<forall>k v. map_of (fst ?st) k = Some v \<longrightarrow> trim (ps_provision_ref v) = k"
    using dedupe_fold_inv[of "([], \<lparr>duplicate_refs = 0, conflicting_duplicates = 0\<rparr>)" ps] by simp
  have "(trim (ps_provision_ref p), w) \<in> set (fst ?st)" using w by (rule map_of_SomeD)
  then have "w \<in> set (fst (dedupeProvisions ps))"
    by (force simp: dedupeProvisions_def Let_def)
  moreover have "trim (ps_provision_ref w) = trim (ps_provision_ref p)" using inv w by blast
  ultimately show ?thesis using le by blast
qed

lemma dedupe_pair:
  assumes "trim (ps_provision_ref a) = trim (ps_provision_ref b)"
  shows "fst (dedupeProvisions [a, b]) =
     [if length (normalizeWhitespace (ps_content b)) > length (normalizeWhitespace (ps_content a))
      then b\<lparr>ps_title := nullish (ps_title b) (ps_title a)\<rparr>
      else a\<lparr>ps_provision_ref := trim (ps_provision_ref a),
             ps_title := nullish (ps_title a) (ps_title b)\<rparr>]"
  using assms
  by (simp add: dedupeProvisions_def dedupe_step_def pickPreferredProvision_def Let_def)

subsection \<open>The normalised content is the words joined by single spaces\<close>

lemma space_is_space: "is_space CHR '' ''"
  by (simp add: is_space_def)

lemma collapse_ws_word:
  assumes "\<forall>c \<in> set w. \<not> is_space c"
  shows "collapse_ws (w @ rest) = w @ collapse_ws rest"
  using assms
proof (induction w)
  case Nil
  then show ?case by simp
next
  case (Cons c w)
  then have c: "\<not> is_space c" and w: "\<forall>c \<in> set w. \<not> is_space c" by simp_all
  show ?case
  proof (cases "w @ rest")
    case Nil
    then show ?thesis using c by simp
  next
    case (Cons d ds)
    have "collapse_ws (c # d # ds) = c # collapse_ws (d # ds)" using c by simp
    then show ?thesis using Cons.IH[OF w] Cons by simp
  qed
qed

lemma collapse_ws_spaces:
  assumes "is_space c"
  shows "collapse_ws (c # cs) = CHR '' '' # collapse_ws (dropWhile is_space cs)"
  using assms
proof (induction cs arbitrary: c)
  case Nil
  then show ?case by simp
next
  case (Cons d ds)
  show ?case
  proof (cases "is_space d")
    case True
    then show ?thesis using Cons.IH[OF True] Cons.prems by simp
  next
    case False
    then show ?thesis using Cons.prems by simp
  qed
qed

lemma ws_words_dropWhile: "ws_words (dropWhile is_space s) = ws_words s"
  by (induction s) simp_all

lemma ws_words_nonempty: "\<not> is_space c \<Longrightarrow> ws_words (c # cs) \<noteq> []"
  by simp

lemma word_split:
  "c # cs = (c # takeWhile (\<lambda>x. \<not> is_space x) cs) @ dropWhile (\<lambda>x. \<not> is_space x) cs"
  by simp

lemma join_words_shape:
  assumes "\<forall>w \<in> set ws. w \<noteq> [] \<and> (\<forall>c \<in> set w. \<not> is_space c)"
  shows "join_words ws = [] \<or> \<not> is_space (last (join_words ws))"
  using assms
proof (induction ws rule: join_words.induct)
  case 1
  then show ?case by simp
next
  case (2 w)
  then show ?case by simp
next
  case (3 w v ws)
  have v: "v \<noteq> []" using "3.prems" by simp
  have ne: "join_words (v # ws) \<noteq> []" using v by (cases ws) simp_all
  have "\<not> is_space (last (join_words (v # ws)))" using "3.IH" "3.prems" ne by simp
  then show ?case using ne by simp
qed

lemma ws_words_words: "\<forall>w \<in> set (ws_words s). w \<noteq> [] \<and> (\<forall>c \<in> set w. \<not> is_space c)"
proof (induction s rule: ws_words.induct)
  case 1
  then show ?case by simp
next
  case (2 c cs)
  show ?case
  proof (cases "is_space c")
    case True
    have e: "ws_words (c # cs) = ws_words cs" using True by simp
    show ?thesis unfolding e using "2.IH"(1)[OF True] .
  next
    case False
    define w where "w = c # takeWhile (\<lambda>x. \<not> is_space x) cs"
    define r where "r = dropWhile (\<lambda>x. \<not> is_space x) cs"
    have e: "ws_words (c # cs) = w # ws_words r" using False by (simp add: w_def r_def)
    have ih: "\<forall>w \<in> set (ws_words r). w \<noteq> [] \<and> (\<forall>c \<in> set w. \<not> is_space c)"
      unfolding r_def using "2.IH"(2)[OF False] .
    have "\<forall>x \<in> set (takeWhile (\<lambda>x. \<not> is_space x) cs). \<not> is_space x"
      using set_takeWhileD by fastforce
    then have w: "w \<noteq> [] \<and> (\<forall>c \<in> set w. \<not> is_space c)"
      using False by (simp add: w_def)
    show ?thesis unfolding e using w ih by (simp del: ws_words.simps)
  qed
qed

text \<open>
  A text that does not begin with white space collapses to its words joined by
  single spaces, followed by one space when the text ends with white space.
\<close>

lemma collapse_ws_words:
  assumes "s = [] \<or> \<not> is_space (hd s)"
  shows "collapse_ws s =
         join_words (ws_words s) @ (if s \<noteq> [] \<and> is_space (last s) then '' '' else [])"
  using assms
proof (induction "length s" arbitrary: s rule: less_induct)
  case less
  show ?case
  proof (cases s)
    case Nil
    then show ?thesis by simp
  next
    case (Cons c cs)
    then have c: "\<not> is_space c" using less.prems by simp
    define w where "w = c # takeWhile (\<lambda>x. \<not> is_space x) cs"
    define rest where "rest = dropWhile (\<lambda>x. \<not> is_space x) cs"
    have s: "s = w @ rest" unfolding w_def rest_def Cons by simp
    have w: "\<forall>x \<in> set w. \<not> is_space x"
      unfolding w_def using c by (auto dest: set_takeWhileD)
    have wne: "w \<noteq> []" by (simp add: w_def)
    have words: "ws_words s = w # ws_words rest" unfolding Cons w_def rest_def using c by simp
    have col: "collapse_ws s = w @ collapse_ws rest" unfolding s by (rule collapse_ws_word[OF w])
    show ?thesis
    proof (cases rest)
      case Nil
      have "last s = last w" using s Nil wne by simp
      then have "\<not> is_space (last s)" using w wne by simp
      then show ?thesis using col words Nil by simp
    next
      case (Cons d ds)
      have d: "is_space d"
      proof -
        have "rest \<noteq> []" using Cons by simp
        then have "\<not> (\<not> is_space (hd rest))"
          unfolding rest_def by (metis (mono_tags, lifting) hd_dropWhile)
        then show ?thesis using Cons by simp
      qed
      define t where "t = dropWhile is_space ds"
      have colr: "collapse_ws rest = CHR '' '' # collapse_ws t"
        unfolding Cons t_def by (rule collapse_ws_spaces[OF d])
      have wr: "ws_words rest = ws_words t"
        unfolding Cons t_def using d by (simp add: ws_words_dropWhile)
      have lt: "length t < length s"
      proof -
        have "length t \<le> length ds" unfolding t_def by (rule length_dropWhile_le)
        then show ?thesis using s Cons by simp
      qed
      have th: "t = [] \<or> \<not> is_space (hd t)"
        unfolding t_def by (metis hd_dropWhile)
      note ih = less.hyps[OF lt th]
      show ?thesis
      proof (cases t)
        case Nil
        have all: "\<forall>x \<in> set ds. is_space x"
          using Nil unfolding t_def by (simp add: dropWhile_eq_Nil_conv)
        have "is_space (last rest)" unfolding Cons using d all by (cases ds) auto
        then have ls: "is_space (last s)" using s Cons by simp
        have "s \<noteq> []" using s wne by simp
        then show ?thesis using col colr words wr Nil ls by simp
      next
        case (Cons e es)
        have e: "\<not> is_space e" using th Cons by simp
        have tne: "ws_words t \<noteq> []" unfolding Cons using e by simp
        have jw: "join_words (w # ws_words t) = w @ '' '' @ join_words (ws_words t)"
          using tne by (cases "ws_words t") simp_all
        have "last s = last t"
        proof -
          have "rest = takeWhile is_space rest @ t"
            unfolding \<open>rest = d # ds\<close> t_def using d by simp
          then have "s = (w @ takeWhile is_space rest) @ t" using s by simp
          then show ?thesis using Cons by (metis last_appendR list.distinct(1))
        qed
        moreover have "s \<noteq> []" "t \<noteq> []" using s wne Cons by simp_all
        ultimately show ?thesis using col colr words wr ih jw by simp
      qed
    qed
  qed
qed

lemma dropWhile_collapse_ws:
  "dropWhile is_space (collapse_ws s) = collapse_ws (dropWhile is_space s)"
proof (induction s rule: collapse_ws.induct)
  case 1
  then show ?case by simp
next
  case (2 c)
  then show ?case by (simp add: space_is_space)
next
  case (3 c d cs)
  show ?case
  proof (cases "is_space c")
    case True
    then show ?thesis using "3" by (simp add: space_is_space)
  next
    case False
    then show ?thesis by simp
  qed
qed

lemma normalizeWhitespace_words: "normalizeWhitespace text = normalized_content text"
proof -
  define t where "t = dropWhile is_space text"
  define J where "J = join_words (ws_words t)"
  have th: "t = [] \<or> \<not> is_space (hd t)" unfolding t_def by (metis hd_dropWhile)
  have col: "collapse_ws t = J @ (if t \<noteq> [] \<and> is_space (last t) then '' '' else [])"
    unfolding J_def by (rule collapse_ws_words[OF th])
  have Jshape: "J = [] \<or> \<not> is_space (last J)"
    unfolding J_def using join_words_shape[OF ws_words_words] .
  have "rev (dropWhile is_space (rev (J @ x))) = J" if "x = [] \<or> x = '' ''" for x
  proof (cases "J = []")
    case True
    then show ?thesis using that by (auto simp: space_is_space)
  next
    case False
    then have l: "\<not> is_space (last J)" using Jshape by simp
    have "dropWhile is_space (rev J) = rev J"
      using False l by (cases "rev J") (simp_all add: last_rev)
    then show ?thesis using that by (auto simp: space_is_space)
  qed
  then have "rev (dropWhile is_space (rev (collapse_ws t))) = J" unfolding col by simp
  moreover have "normalizeWhitespace text = rev (dropWhile is_space (rev (collapse_ws t)))"
    by (simp add: normalizeWhitespace_def trim_def dropWhile_collapse_ws t_def)
  moreover have "J = normalized_content text"
    by (simp add: J_def t_def normalized_content_def ws_words_dropWhile)
  ultimately show ?thesis by simp
qed

text \<open>
  Claim C3, amended: the other side's heading is taken only when the winner's
  heading is absent; a winner whose heading is the empty text keeps it. After
  \<open>dedupeProvisions\<close> every reference token of the input (the reference with
  surrounding white space removed, which is the key the function uses) has
  exactly one provision, and that provision's normalised content, the words of
  the content joined by single spaces, is at least as long as that of every input
  provision with the token. Of two provisions with the same token the one with
  the longer normalised content survives, the first on equal length, and the
  survivor's heading is its own when it has one, the empty text included, and
  the other one's when it is absent.
\<close>

theorem dedupeProvisions_law:
  "distinct (map (\<lambda>v. trim (ps_provision_ref v)) (fst (dedupeProvisions ps)))
   \<and> set (map (\<lambda>v. trim (ps_provision_ref v)) (fst (dedupeProvisions ps))) =
       (\<lambda>p. trim (ps_provision_ref p)) ` set ps
   \<and> (\<forall>p \<in> set ps. \<exists>w \<in> set (fst (dedupeProvisions ps)).
          trim (ps_provision_ref w) = trim (ps_provision_ref p) \<and>
          length (normalized_content (ps_content p)) \<le> length (normalized_content (ps_content w)))
   \<and> (trim (ps_provision_ref a) = trim (ps_provision_ref b) \<longrightarrow>
        fst (dedupeProvisions [a, b]) =
          [if length (normalized_content (ps_content b)) > length (normalized_content (ps_content a))
           then b\<lparr>ps_title := (case ps_title b of Some t \<Rightarrow> Some t | None \<Rightarrow> ps_title a)\<rparr>
           else a\<lparr>ps_provision_ref := trim (ps_provision_ref a),
                  ps_title := (case ps_title a of Some t \<Rightarrow> Some t | None \<Rightarrow> ps_title b)\<rparr>])"
proof -
  have 1: "distinct (map (\<lambda>v. trim (ps_provision_ref v)) (fst (dedupeProvisions ps)))"
    by (rule dedupe_distinct)
  have 2: "set (map (\<lambda>v. trim (ps_provision_ref v)) (fst (dedupeProvisions ps))) =
       (\<lambda>p. trim (ps_provision_ref p)) ` set ps"
    by (rule dedupe_tokens)
  have 3: "\<forall>p \<in> set ps. \<exists>w \<in> set (fst (dedupeProvisions ps)).
          trim (ps_provision_ref w) = trim (ps_provision_ref p) \<and>
          length (normalized_content (ps_content p)) \<le> length (normalized_content (ps_content w))"
    using dedupe_longest[of _ ps] unfolding normalizeWhitespace_words by blast
  have 4: "trim (ps_provision_ref a) = trim (ps_provision_ref b) \<longrightarrow>
        fst (dedupeProvisions [a, b]) =
          [if length (normalized_content (ps_content b)) > length (normalized_content (ps_content a))
           then b\<lparr>ps_title := (case ps_title b of Some t \<Rightarrow> Some t | None \<Rightarrow> ps_title a)\<rparr>
           else a\<lparr>ps_provision_ref := trim (ps_provision_ref a),
                  ps_title := (case ps_title a of Some t \<Rightarrow> Some t | None \<Rightarrow> ps_title b)\<rparr>]"
    using dedupe_pair[of a b] unfolding normalizeWhitespace_words nullish_def by blast
  show ?thesis using 1 2 3 4 by blast
qed

theorem dedupeProvisions_law_witness:
  "fst (dedupeProvisions
     [\<lparr>ps_provision_ref = '' art1'', ps_chapter = None, ps_section = ''1'', ps_title = Some ''Oggetto'',
       ps_content = ''Il   presente     decreto'', ps_metadata = None\<rparr>,
      \<lparr>ps_provision_ref = ''art1'', ps_chapter = None, ps_section = ''1'', ps_title = None,
       ps_content = ''Il presente decreto ora'', ps_metadata = None\<rparr>])
   = [\<lparr>ps_provision_ref = ''art1'', ps_chapter = None, ps_section = ''1'', ps_title = Some ''Oggetto'',
       ps_content = ''Il presente decreto ora'', ps_metadata = None\<rparr>]"
proof -
  let ?a = "\<lparr>ps_provision_ref = '' art1'', ps_chapter = None, ps_section = ''1'',
             ps_title = Some ''Oggetto'', ps_content = ''Il   presente     decreto'',
             ps_metadata = None\<rparr>"
  let ?b = "\<lparr>ps_provision_ref = ''art1'', ps_chapter = None, ps_section = ''1'', ps_title = None,
             ps_content = ''Il presente decreto ora'', ps_metadata = None\<rparr>"
  have t: "trim (ps_provision_ref ?a) = trim (ps_provision_ref ?b)" by code_simp
  have la: "length (normalized_content (ps_content ?a)) = 19" by code_simp
  have lb: "length (normalized_content (ps_content ?b)) = 23" by code_simp
  have "fst (dedupeProvisions [?a, ?b]) =
          [if length (normalized_content (ps_content ?b)) > length (normalized_content (ps_content ?a))
           then ?b\<lparr>ps_title := (case ps_title ?b of Some t \<Rightarrow> Some t | None \<Rightarrow> ps_title ?a)\<rparr>
           else ?a\<lparr>ps_provision_ref := trim (ps_provision_ref ?a),
                  ps_title := (case ps_title ?a of Some t \<Rightarrow> Some t | None \<Rightarrow> ps_title ?b)\<rparr>]"
    using dedupeProvisions_law[of "[?a, ?b]" ?a ?b] t by blast
  then show ?thesis unfolding la lb by simp
qed

text \<open>
  The claim as stated fails when the winner carries the empty heading, which is
  what the article parsers write for an article without a heading: the winner
  has no heading, the other side has one, and the survivor's heading is empty,
  whether the winner is the incumbent or the incoming provision.
\<close>

theorem dedupeProvisions_empty_heading_counterexample:
  "fst (dedupeProvisions
     [\<lparr>ps_provision_ref = ''art1'', ps_chapter = None, ps_section = ''1'', ps_title = Some [],
       ps_content = ''Il presente decreto disciplina'', ps_metadata = None\<rparr>,
      \<lparr>ps_provision_ref = ''art1'', ps_chapter = None, ps_section = ''1'', ps_title = Some ''Oggetto'',
       ps_content = ''Il presente decreto'', ps_metadata = None\<rparr>])
   = [\<lparr>ps_provision_ref = ''art1'', ps_chapter = None, ps_section = ''1'', ps_title = Some [],
       ps_content = ''Il presente decreto disciplina'', ps_metadata = None\<rparr>]
   \<and> fst (dedupeProvisions
     [\<lparr>ps_provision_ref = ''art1'', ps_chapter = None, ps_section = ''1'', ps_title = Some ''Oggetto'',
       ps_content = ''Il presente decreto'', ps_metadata = None\<rparr>,
      \<lparr>ps_provision_ref = ''art1'', ps_chapter = None, ps_section = ''1'', ps_title = Some [],
       ps_content = ''Il presente decreto disciplina'', ps_metadata = None\<rparr>])
   = [\<lparr>ps_provision_ref = ''art1'', ps_chapter = None, ps_section = ''1'', ps_title = Some [],
       ps_content = ''Il presente decreto disciplina'', ps_metadata = None\<rparr>]"
  by code_simp

subsection \<open>A seed's provisions pass the builder's deduplication unchanged\<close>

lemma update_fresh: "k \<notin> fst ` set al \<Longrightarrow> AList.update k v al = al @ [(k, v)]"
  by (induction al) auto

lemma map_of_fresh: "k \<notin> fst ` set al \<Longrightarrow> map_of al k = None"
  by (simp add: map_of_eq_None_iff)

lemma dedupe_fold_distinct_input:
  assumes "distinct (map ps_provision_ref ps)"
    and "\<forall>p \<in> set ps. trim (ps_provision_ref p) = ps_provision_ref p"
    and "fst ` set al \<inter> ps_provision_ref ` set ps = {}"
  shows "foldl dedupe_step (al, stats) ps = (al @ map (\<lambda>p. (ps_provision_ref p, p)) ps, stats)"
  using assms
proof (induction ps arbitrary: al)
  case Nil
  then show ?case by simp
next
  case (Cons p ps)
  have tp: "trim (ps_provision_ref p) = ps_provision_ref p" using Cons.prems(2) by simp
  have fresh: "ps_provision_ref p \<notin> fst ` set al" using Cons.prems(3) by auto
  have same: "p\<lparr>ps_provision_ref := ps_provision_ref p\<rparr> = p" by simp
  have step: "dedupe_step (al, stats) p = (al @ [(ps_provision_ref p, p)], stats)"
    using map_of_fresh[OF fresh] update_fresh[OF fresh]
    by (simp add: dedupe_step_def Let_def tp)
  have d: "distinct (map ps_provision_ref ps)" using Cons.prems(1) by simp
  have t: "\<forall>q \<in> set ps. trim (ps_provision_ref q) = ps_provision_ref q" using Cons.prems(2) by simp
  have i: "fst ` set (al @ [(ps_provision_ref p, p)]) \<inter> ps_provision_ref ` set ps = {}"
    using Cons.prems(1) Cons.prems(3) by auto
  show ?case using Cons.IH[OF d t i] by (simp add: step)
qed

lemma dedupe_distinct_input:
  assumes "distinct (map ps_provision_ref ps)"
    and "\<forall>p \<in> set ps. trim (ps_provision_ref p) = ps_provision_ref p"
  shows "dedupeProvisions ps = (ps, \<lparr>duplicate_refs = 0, conflicting_duplicates = 0\<rparr>)"
proof -
  have "foldl dedupe_step ([], \<lparr>duplicate_refs = 0, conflicting_duplicates = 0\<rparr>) ps =
        ([] @ map (\<lambda>p. (ps_provision_ref p, p)) ps, \<lparr>duplicate_refs = 0, conflicting_duplicates = 0\<rparr>)"
    by (rule dedupe_fold_distinct_input[OF assms]) simp
  then show ?thesis by (simp add: dedupeProvisions_def Let_def o_def)
qed

lemma ingestAct_with_provisions:
  "act_provisions (ir_seed (ingestAct_with ident pa pb law fetched)) =
     (case fetched of
        Inl msg \<Rightarrow> []
      | Inr articles \<Rightarrow>
          first_by_ref (List.map_filter (\<lambda>a. nullish (pa (afr_html a)) (pb (afr_html a))) articles))"
proof (cases fetched)
  case (Inl msg)
  then show ?thesis by (simp add: ingestAct_with_def seed_of_def)
next
  case (Inr articles)
  show ?thesis
  proof (cases articles)
    case Nil
    then show ?thesis using Inr
      by (simp add: ingestAct_with_def seed_of_def List.map_filter_simps)
  next
    case (Cons a as)
    then show ?thesis using Inr
      by (simp add: ingestAct_with_def seed_of_def Let_def parse_articles_first del: first_by_ref.simps)
  qed
qed

lemma ingestAct_with_distinct:
  "distinct (map pp_provision_ref (act_provisions (ir_seed (ingestAct_with ident pa pb law fetched))))"
proof (cases fetched)
  case (Inl msg)
  then show ?thesis by (simp add: ingestAct_with_def seed_of_def)
next
  case (Inr articles)
  then show ?thesis
    by (simp add: ingestAct_with_def seed_of_def Let_def parse_articles_distinct)
qed

lemma seed_provision_ref: "map ps_provision_ref (map seed_provision ps) = map pp_provision_ref ps"
  by (simp add: seed_provision_def)

section \<open>The session fetch\<close>

lemma fetchAttempts_no_failure_error:
  "attempt \<le> maxRetries \<Longrightarrow>
   run_result (fetchAttempts net url maxRetries attempt cookies backoffs) \<noteq>
     Inl (FailedAfterRetries u n)"
proof (induction net url maxRetries attempt cookies backoffs rule: fetchAttempts.induct)
  case (1 net url maxRetries attempt cookies backoffs)
  show ?case
  proof (cases "net attempt")
    case (Rejected msg)
    then show ?thesis using "1.prems" by (simp add: fetchAttempts.simps[of net url maxRetries attempt])
  next
    case (Reply response)
    show ?thesis
    proof (cases "(resp_status response = 429 \<or> resp_status response \<ge> 500) \<and> attempt < maxRetries")
      case True
      then have "attempt + 1 \<le> maxRetries" by simp
      then show ?thesis using "1.IH"[OF "1.prems" Reply refl True] "1.prems" Reply True
        by (simp add: fetchAttempts.simps[of net url maxRetries attempt] Let_def)
    next
      case False
      then show ?thesis using "1.prems" Reply
        by (auto simp add: fetchAttempts.simps[of net url maxRetries attempt] Let_def)
    qed
  qed
qed

text \<open>
  Claim C4, at the input on which the code departs from it. The server answers
  every attempt with status 500; with the default bound of three retries
  \<open>fetchWithSession\<close> sleeps 2000, 4000 and 8000 milliseconds and then returns
  the fourth response to its caller as an ordinary result with status 500. The
  statement after the loop that would raise the failure is never reached.
\<close>

theorem fetchWithSession_exhausted_returns_response:
  "run_result (fetchWithSession
       (\<lambda>attempt. Reply \<lparr>resp_status = 500, resp_body = ''Internal Server Error'',
                          resp_contentType = Some ''text/html'', resp_setCookies = []\<rparr>)
       ''https://www.normattiva.it/uri-res/N2Ls?urn:nir:stato:legge:2019;5'' 3 [])
     = Inr \<lparr>fr_status = 500, fr_body = ''Internal Server Error'', fr_contentType = ''text/html''\<rparr>
   \<and> run_backoffs (fetchWithSession
       (\<lambda>attempt. Reply \<lparr>resp_status = 500, resp_body = ''Internal Server Error'',
                          resp_contentType = Some ''text/html'', resp_setCookies = []\<rparr>)
       ''https://www.normattiva.it/uri-res/N2Ls?urn:nir:stato:legge:2019;5'' 3 [])
     = [2000, 4000, 8000]"
  by (simp add: fetchWithSession_def fetchAttempts.simps Let_def)

section \<open>The matcher\<close>

lemma lit_match_split:
  "lit_match ic l s = Some (m, rest) \<Longrightarrow> s = m @ rest \<and> length m = length l"
proof (induction ic l s arbitrary: m rest rule: lit_match.induct)
  case (1 ic s)
  then show ?case by (simp add: lit_match.simps)
next
  case (2 ic p ps)
  then show ?case by (simp add: lit_match.simps)
next
  case (3 ic p ps c cs)
  then show ?case
    by (auto simp: lit_match.simps split: if_splits option.splits)
qed

lemma rep_class_split:
  "rep_class p lo hi s k = Some x \<Longrightarrow>
   \<exists>m rest. s = m @ rest \<and> (\<forall>c \<in> set m. p c) \<and> lo \<le> length m \<and> k (m, rest) = Some x"
proof (induction s arbitrary: lo hi k x)
  case Nil
  then show ?case by (auto simp: rep_class.simps split: if_splits)
next
  case (Cons c cs)
  show ?case
  proof (cases "hi \<noteq> Some 0 \<and> p c")
    case False
    then have "lo = 0 \<and> k ([], c # cs) = Some x"
      using Cons.prems by (auto simp: rep_class.simps split: if_splits)
    then have "c # cs = [] @ (c # cs) \<and> (\<forall>a \<in> set []. p a) \<and> lo \<le> length ([] :: string)
               \<and> k ([], c # cs) = Some x" by simp
    then show ?thesis by blast
  next
    case True
    let ?inner = "rep_class p (lo - 1) (map_option (\<lambda>h. h - 1) hi) cs (\<lambda>(m, r). k (c # m, r))"
    show ?thesis
    proof (cases ?inner)
      case None
      then have "lo = 0 \<and> k ([], c # cs) = Some x"
        using Cons.prems True by (auto simp: rep_class.simps split: if_splits)
      then have "c # cs = [] @ (c # cs) \<and> (\<forall>a \<in> set []. p a) \<and> lo \<le> length ([] :: string)
                 \<and> k ([], c # cs) = Some x" by simp
      then show ?thesis by blast
    next
      case (Some y)
      then have xy: "y = x" using Cons.prems True by (simp add: rep_class.simps)
      obtain m rest where mr: "cs = m @ rest" "\<forall>c \<in> set m. p c" "lo - 1 \<le> length m"
        "(\<lambda>(m, r). k (c # m, r)) (m, rest) = Some y"
        using Cons.IH[OF Some] by blast
      have "c # cs = (c # m) @ rest \<and> (\<forall>a \<in> set (c # m). p a) \<and> lo \<le> length (c # m)
            \<and> k (c # m, rest) = Some x"
        using mr True xy by auto
      then show ?thesis by blast
    qed
  qed
qed

lemma rmatch_split:
  "rmatch ic r s caps k = Some x \<Longrightarrow>
   \<exists>m rest caps'. s = m @ rest \<and> k (m, rest, caps') = Some x \<and>
      must_groups r \<subseteq> fst ` set caps' \<and> fst ` set caps \<subseteq> fst ` set caps'"
proof (induction r arbitrary: s caps k x)
  case Eps
  then show ?case by (auto simp: rmatch.simps)
next
  case Eos
  then show ?case by (auto simp: rmatch.simps split: if_splits)
next
  case (Lit l)
  then obtain m rest where lm: "lit_match ic l s = Some (m, rest)" and k: "k (m, rest, caps) = Some x"
    by (auto simp: rmatch.simps split: option.splits)
  have "s = m @ rest" using lit_match_split[OF lm] by simp
  moreover have "must_groups (Lit l) \<subseteq> fst ` set caps" by simp
  ultimately show ?case using k by blast
next
  case (Rep c lo hi)
  then have "rep_class (in_class c) lo hi s (\<lambda>(m, rest). k (m, rest, caps)) = Some x"
    by (simp add: rmatch.simps)
  from rep_class_split[OF this] obtain m rest where
    h: "s = m @ rest" "(\<lambda>(m, rest). k (m, rest, caps)) (m, rest) = Some x"
    by blast
  have "k (m, rest, caps) = Some x" using h(2) by simp
  moreover have "must_groups (Rep c lo hi) \<subseteq> fst ` set caps" by simp
  ultimately show ?case using h(1) by blast
next
  case (Seq a b)
  let ?kb = "\<lambda>(m1, s1, c1). rmatch ic b s1 c1 (\<lambda>(m2, s2, c2). k (m1 @ m2, s2, c2))"
  have "rmatch ic a s caps ?kb = Some x" using Seq.prems by (simp add: rmatch.simps)
  from Seq.IH(1)[OF this] obtain m1 s1 c1 where
    a: "s = m1 @ s1" "?kb (m1, s1, c1) = Some x" "must_groups a \<subseteq> fst ` set c1"
       "fst ` set caps \<subseteq> fst ` set c1"
    by blast
  then have "rmatch ic b s1 c1 (\<lambda>(m2, s2, c2). k (m1 @ m2, s2, c2)) = Some x" by simp
  from Seq.IH(2)[OF this] obtain m2 s2 c2 where
    b: "s1 = m2 @ s2" "(\<lambda>(m2, s2, c2). k (m1 @ m2, s2, c2)) (m2, s2, c2) = Some x"
       "must_groups b \<subseteq> fst ` set c2" "fst ` set c1 \<subseteq> fst ` set c2"
    by blast
  have "fst ` set caps \<subseteq> fst ` set c2" using a(4) b(4) by (rule subset_trans)
  moreover have "must_groups (Seq a b) \<subseteq> fst ` set c2" using a(3) b(3) b(4) by auto
  moreover have "s = (m1 @ m2) @ s2 \<and> k (m1 @ m2, s2, c2) = Some x" using a(1) b(1) b(2) by simp
  ultimately have "s = (m1 @ m2) @ s2 \<and> k (m1 @ m2, s2, c2) = Some x \<and>
        must_groups (Seq a b) \<subseteq> fst ` set c2 \<and> fst ` set caps \<subseteq> fst ` set c2"
    by blast
  then show ?case by blast
next
  case (Alt a b)
  show ?case
  proof (cases "rmatch ic a s caps k")
    case None
    then have "rmatch ic b s caps k = Some x" using Alt.prems by (simp add: rmatch.simps)
    from Alt.IH(2)[OF this] obtain m rest caps' where
      h: "s = m @ rest" "k (m, rest, caps') = Some x" "must_groups b \<subseteq> fst ` set caps'"
         "fst ` set caps \<subseteq> fst ` set caps'"
      by blast
    have "must_groups (Alt a b) \<subseteq> fst ` set caps'" using h(3) by auto
    then show ?thesis using h by blast
  next
    case (Some y)
    then have "rmatch ic a s caps k = Some x" using Alt.prems by (simp add: rmatch.simps)
    from Alt.IH(1)[OF this] obtain m rest caps' where
      h: "s = m @ rest" "k (m, rest, caps') = Some x" "must_groups a \<subseteq> fst ` set caps'"
         "fst ` set caps \<subseteq> fst ` set caps'"
      by blast
    have "must_groups (Alt a b) \<subseteq> fst ` set caps'" using h(3) by auto
    then show ?thesis using h by blast
  qed
next
  case (Opt a)
  show ?case
  proof (cases "rmatch ic a s caps k")
    case None
    then have "k ([], s, caps) = Some x" using Opt.prems by (simp add: rmatch.simps)
    then have "s = [] @ s \<and> k ([], s, caps) = Some x \<and>
        must_groups (Opt a) \<subseteq> fst ` set caps \<and> fst ` set caps \<subseteq> fst ` set caps" by simp
    then show ?thesis by blast
  next
    case (Some y)
    then have "rmatch ic a s caps k = Some x" using Opt.prems by (simp add: rmatch.simps)
    from Opt.IH[OF this] obtain m rest caps' where
      h: "s = m @ rest" "k (m, rest, caps') = Some x" "fst ` set caps \<subseteq> fst ` set caps'"
      by blast
    have "must_groups (Opt a) \<subseteq> fst ` set caps'" by simp
    then show ?thesis using h by blast
  qed
next
  case (Grp i a)
  let ?kg = "\<lambda>(m, rest, c1). k (m, rest, (i, m) # c1)"
  have "rmatch ic a s caps ?kg = Some x" using Grp.prems by (simp add: rmatch.simps)
  from Grp.IH[OF this] obtain m rest c1 where
    g: "s = m @ rest" "?kg (m, rest, c1) = Some x" "must_groups a \<subseteq> fst ` set c1"
       "fst ` set caps \<subseteq> fst ` set c1"
    by blast
  have "k (m, rest, (i, m) # c1) = Some x" using g(2) by simp
  moreover have "must_groups (Grp i a) \<subseteq> fst ` set ((i, m) # c1)" using g(3) by auto
  moreover have "fst ` set caps \<subseteq> fst ` set ((i, m) # c1)" using g(4) by auto
  ultimately show ?case using g(1) by blast
qed

lemma match_start_groups:
  assumes "match_start ic r s = Some (m, caps)"
  shows "(\<exists>rest. s = m @ rest) \<and> (\<forall>i \<in> must_groups r. grp caps i \<noteq> None)"
proof -
  from rmatch_split[OF assms[unfolded match_start_def]]
  obtain m' rest caps' where h: "s = m' @ rest" "Some (m', caps') = Some (m, caps)"
    "must_groups r \<subseteq> fst ` set caps'"
    by auto
  have eq: "m' = m" "caps' = caps" using h(2) by simp_all
  have "\<forall>i \<in> must_groups r. grp caps i \<noteq> None"
  proof
    fix i assume "i \<in> must_groups r"
    then have "i \<in> fst ` set caps" using h(3) eq by blast
    then show "grp caps i \<noteq> None" by (simp add: grp_def map_of_eq_None_iff)
  qed
  then show ?thesis using h(1) eq by blast
qed


section \<open>Ingestion: the first parse wins\<close>

subsection \<open>The references the article parsers build\<close>

lemma printable_not_space:
  assumes "33 \<le> (of_char p :: nat)" and "(of_char p :: nat) \<le> 126" and "char_eq ic p c"
  shows "\<not> is_space c"
proof
  assume sp: "is_space c"
  then have cc: "canonical_code c = of_char c" by (auto simp: is_space_def canonical_code_def)
  have pc: "33 \<le> canonical_code p \<and> canonical_code p \<le> 126"
    using assms(1,2) by (auto simp: canonical_code_def Let_def)
  have np: "\<not> is_space p" using assms(1,2) by (auto simp: is_space_def)
  show False
  proof (cases ic)
    case True
    then have "canonical_code p = of_char c" using assms(3) cc by (simp add: char_eq_def)
    then show False using pc sp by (auto simp: is_space_def)
  next
    case False
    then have "p = c" using assms(3) by (simp add: char_eq_def)
    then show False using np sp by simp
  qed
qed

lemma lit_match_chars:
  "lit_match ic l s = Some (m, rest) \<Longrightarrow> list_all2 (char_eq ic) l m"
proof (induction ic l s arbitrary: m rest rule: lit_match.induct)
  case (1 ic s)
  then show ?case by (simp add: lit_match.simps)
next
  case (2 ic p ps)
  then show ?case by (simp add: lit_match.simps)
next
  case (3 ic p ps c cs)
  from "3.prems" have ce: "char_eq ic p c" by (simp add: lit_match.simps split: if_splits)
  from "3.prems" ce obtain m' where
    lm: "lit_match ic ps cs = Some (m', rest)" and m: "m = c # m'"
    by (auto simp: lit_match.simps split: option.splits)
  have "list_all2 (char_eq ic) ps m'" using "3.IH"[OF ce lm] .
  then show ?case using ce m by simp
qed

lemma lit_match_spaceless:
  assumes "lit_match ic l s = Some (m, rest)" and "spaceless (Lit l)"
  shows "\<forall>c \<in> set m. \<not> is_space c"
proof
  fix c assume "c \<in> set m"
  then obtain i where i: "i < length m" "m ! i = c" by (auto simp: in_set_conv_nth)
  have a: "list_all2 (char_eq ic) l m" using lit_match_chars[OF assms(1)] .
  then have len: "length l = length m" by (rule list_all2_lengthD)
  have ce: "char_eq ic (l ! i) c" using a i by (auto simp: list_all2_conv_all_nth)
  have "l ! i \<in> set l" using i len by simp
  then have "33 \<le> (of_char (l ! i) :: nat) \<and> (of_char (l ! i) :: nat) \<le> 126"
    using assms(2) by simp
  then show "\<not> is_space c" using printable_not_space ce by blast
qed

lemma rmatch_spaceless:
  "rmatch ic r s caps k = Some x \<Longrightarrow>
   \<exists>m rest caps'. s = m @ rest \<and> k (m, rest, caps') = Some x \<and>
      (spaceless r \<longrightarrow> (\<forall>c \<in> set m. \<not> is_space c)) \<and>
      (spaceless_groups r \<longrightarrow>
         (\<forall>e \<in> set caps'. e \<in> set caps \<or> (\<forall>c \<in> set (snd e). \<not> is_space c)))"
proof (induction r arbitrary: s caps k x)
  case Eps
  then have "s = [] @ s \<and> k ([], s, caps) = Some x" by (simp add: rmatch.simps)
  then show ?case by fastforce
next
  case Eos
  then have "s = [] @ [] \<and> k ([], [], caps) = Some x"
    by (simp add: rmatch.simps split: if_splits)
  then show ?case by fastforce
next
  case (Lit l)
  then obtain m rest where lm: "lit_match ic l s = Some (m, rest)" and k: "k (m, rest, caps) = Some x"
    by (auto simp: rmatch.simps split: option.splits)
  have "s = m @ rest" using lit_match_split[OF lm] by simp
  moreover have "spaceless (Lit l) \<longrightarrow> (\<forall>c \<in> set m. \<not> is_space c)"
    using lit_match_spaceless[OF lm] by blast
  ultimately have "s = m @ rest \<and> k (m, rest, caps) = Some x \<and>
      (spaceless (Lit l) \<longrightarrow> (\<forall>c \<in> set m. \<not> is_space c)) \<and>
      (spaceless_groups (Lit l) \<longrightarrow>
         (\<forall>e \<in> set caps. e \<in> set caps \<or> (\<forall>c \<in> set (snd e). \<not> is_space c)))"
    using k by simp
  then show ?case by blast
next
  case (Rep c lo hi)
  then have "rep_class (in_class c) lo hi s (\<lambda>(m, rest). k (m, rest, caps)) = Some x"
    by (simp add: rmatch.simps)
  from rep_class_split[OF this] obtain m rest where
    h: "s = m @ rest" "\<forall>a \<in> set m. in_class c a"
       "(\<lambda>(m, rest). k (m, rest, caps)) (m, rest) = Some x"
    by blast
  have k: "k (m, rest, caps) = Some x" using h(3) by simp
  have "spaceless (Rep c lo hi) \<longrightarrow> (\<forall>a \<in> set m. \<not> is_space a)"
    using h(2) is_digit_not_space by auto
  then have "s = m @ rest \<and> k (m, rest, caps) = Some x \<and>
      (spaceless (Rep c lo hi) \<longrightarrow> (\<forall>c \<in> set m. \<not> is_space c)) \<and>
      (spaceless_groups (Rep c lo hi) \<longrightarrow>
         (\<forall>e \<in> set caps. e \<in> set caps \<or> (\<forall>c \<in> set (snd e). \<not> is_space c)))"
    using h(1) k by simp
  then show ?case by blast
next
  case (Seq a b)
  let ?kb = "\<lambda>(m1, s1, c1). rmatch ic b s1 c1 (\<lambda>(m2, s2, c2). k (m1 @ m2, s2, c2))"
  have "rmatch ic a s caps ?kb = Some x" using Seq.prems by (simp add: rmatch.simps)
  from Seq.IH(1)[OF this] obtain m1 s1 c1 where
    a: "s = m1 @ s1" "?kb (m1, s1, c1) = Some x"
       "spaceless a \<longrightarrow> (\<forall>c \<in> set m1. \<not> is_space c)"
       "spaceless_groups a \<longrightarrow>
          (\<forall>e \<in> set c1. e \<in> set caps \<or> (\<forall>c \<in> set (snd e). \<not> is_space c))"
    by (elim exE conjE)
  from a(2) have "rmatch ic b s1 c1 (\<lambda>(m2, s2, c2). k (m1 @ m2, s2, c2)) = Some x" by simp
  from Seq.IH(2)[OF this] obtain m2 s2 c2 where
    b: "s1 = m2 @ s2" "(\<lambda>(m2, s2, c2). k (m1 @ m2, s2, c2)) (m2, s2, c2) = Some x"
       "spaceless b \<longrightarrow> (\<forall>c \<in> set m2. \<not> is_space c)"
       "spaceless_groups b \<longrightarrow>
          (\<forall>e \<in> set c2. e \<in> set c1 \<or> (\<forall>c \<in> set (snd e). \<not> is_space c))"
    by (elim exE conjE)
  have 1: "s = (m1 @ m2) @ s2" using a(1) b(1) by simp
  have 2: "k (m1 @ m2, s2, c2) = Some x" using b(2) by simp
  have 3: "spaceless (Seq a b) \<longrightarrow> (\<forall>c \<in> set (m1 @ m2). \<not> is_space c)"
    using a(3) b(3) by auto
  have 4: "spaceless_groups (Seq a b) \<longrightarrow>
          (\<forall>e \<in> set c2. e \<in> set caps \<or> (\<forall>c \<in> set (snd e). \<not> is_space c))"
    using a(4) b(4) by auto
  show ?case using 1 2 3 4 by blast
next
  case (Alt a b)
  show ?case
  proof (cases "rmatch ic a s caps k")
    case None
    then have "rmatch ic b s caps k = Some x" using Alt.prems by (simp add: rmatch.simps)
    from Alt.IH(2)[OF this] obtain m rest caps' where
      h: "s = m @ rest" "k (m, rest, caps') = Some x"
         "spaceless b \<longrightarrow> (\<forall>c \<in> set m. \<not> is_space c)"
         "spaceless_groups b \<longrightarrow>
            (\<forall>e \<in> set caps'. e \<in> set caps \<or> (\<forall>c \<in> set (snd e). \<not> is_space c))"
      by (elim exE conjE)
    have 3: "spaceless (Alt a b) \<longrightarrow> (\<forall>c \<in> set m. \<not> is_space c)" using h(3) by simp
    have 4: "spaceless_groups (Alt a b) \<longrightarrow>
            (\<forall>e \<in> set caps'. e \<in> set caps \<or> (\<forall>c \<in> set (snd e). \<not> is_space c))"
      using h(4) by simp
    show ?thesis using h(1,2) 3 4 by blast
  next
    case (Some y)
    then have "rmatch ic a s caps k = Some x" using Alt.prems by (simp add: rmatch.simps)
    from Alt.IH(1)[OF this] obtain m rest caps' where
      h: "s = m @ rest" "k (m, rest, caps') = Some x"
         "spaceless a \<longrightarrow> (\<forall>c \<in> set m. \<not> is_space c)"
         "spaceless_groups a \<longrightarrow>
            (\<forall>e \<in> set caps'. e \<in> set caps \<or> (\<forall>c \<in> set (snd e). \<not> is_space c))"
      by (elim exE conjE)
    have 3: "spaceless (Alt a b) \<longrightarrow> (\<forall>c \<in> set m. \<not> is_space c)" using h(3) by simp
    have 4: "spaceless_groups (Alt a b) \<longrightarrow>
            (\<forall>e \<in> set caps'. e \<in> set caps \<or> (\<forall>c \<in> set (snd e). \<not> is_space c))"
      using h(4) by simp
    show ?thesis using h(1,2) 3 4 by blast
  qed
next
  case (Opt a)
  show ?case
  proof (cases "rmatch ic a s caps k")
    case None
    then have "k ([], s, caps) = Some x" using Opt.prems by (simp add: rmatch.simps)
    then have "s = [] @ s \<and> k ([], s, caps) = Some x \<and>
      (spaceless (Opt a) \<longrightarrow> (\<forall>c \<in> set ([] :: string). \<not> is_space c)) \<and>
      (spaceless_groups (Opt a) \<longrightarrow>
         (\<forall>e \<in> set caps. e \<in> set caps \<or> (\<forall>c \<in> set (snd e). \<not> is_space c)))"
      by simp
    then show ?thesis by blast
  next
    case (Some y)
    then have "rmatch ic a s caps k = Some x" using Opt.prems by (simp add: rmatch.simps)
    from Opt.IH[OF this] obtain m rest caps' where
      h: "s = m @ rest" "k (m, rest, caps') = Some x"
         "spaceless a \<longrightarrow> (\<forall>c \<in> set m. \<not> is_space c)"
         "spaceless_groups a \<longrightarrow>
            (\<forall>e \<in> set caps'. e \<in> set caps \<or> (\<forall>c \<in> set (snd e). \<not> is_space c))"
      by (elim exE conjE)
    have 3: "spaceless (Opt a) \<longrightarrow> (\<forall>c \<in> set m. \<not> is_space c)" using h(3) by simp
    have 4: "spaceless_groups (Opt a) \<longrightarrow>
            (\<forall>e \<in> set caps'. e \<in> set caps \<or> (\<forall>c \<in> set (snd e). \<not> is_space c))"
      using h(4) by simp
    show ?thesis using h(1,2) 3 4 by blast
  qed
next
  case (Grp i a)
  let ?kg = "\<lambda>(m, rest, c1). k (m, rest, (i, m) # c1)"
  have "rmatch ic a s caps ?kg = Some x" using Grp.prems by (simp add: rmatch.simps)
  from Grp.IH[OF this] obtain m rest c1 where
    g: "s = m @ rest" "?kg (m, rest, c1) = Some x"
       "spaceless a \<longrightarrow> (\<forall>c \<in> set m. \<not> is_space c)"
       "spaceless_groups a \<longrightarrow>
          (\<forall>e \<in> set c1. e \<in> set caps \<or> (\<forall>c \<in> set (snd e). \<not> is_space c))"
    by (elim exE conjE)
  have 2: "k (m, rest, (i, m) # c1) = Some x" using g(2) by simp
  have 3: "spaceless (Grp i a) \<longrightarrow> (\<forall>c \<in> set m. \<not> is_space c)" using g(3) by simp
  have 4: "spaceless_groups (Grp i a) \<longrightarrow>
          (\<forall>e \<in> set ((i, m) # c1). e \<in> set caps \<or> (\<forall>c \<in> set (snd e). \<not> is_space c))"
    using g(3,4) by auto
  show ?case using g(1) 2 3 4 by blast
qed

lemma match_first_spaceless:
  assumes "spaceless_groups r" and "match_first ic r s = Some (m, caps)"
  shows "\<forall>e \<in> set caps. \<forall>c \<in> set (snd e). \<not> is_space c"
  using assms(2)
proof (induction s)
  case Nil
  then have "rmatch ic r [] [] (\<lambda>(m, rest, caps). Some (m, caps)) = Some (m, caps)" by simp
  from rmatch_spaceless[OF this] obtain m' rest caps' where
    h: "[] = m' @ rest" "(\<lambda>(m, rest, caps). Some (m, caps)) (m', rest, caps') = Some (m, caps)"
       "spaceless r \<longrightarrow> (\<forall>c \<in> set m'. \<not> is_space c)"
       "spaceless_groups r \<longrightarrow>
          (\<forall>e \<in> set caps'. e \<in> set [] \<or> (\<forall>c \<in> set (snd e). \<not> is_space c))"
    by (elim exE conjE)
  have "caps' = caps" using h(2) by simp
  then show ?case using h(4) assms(1) by simp
next
  case (Cons c cs)
  show ?case
  proof (cases "rmatch ic r (c # cs) [] (\<lambda>(m, rest, caps). Some (m, caps))")
    case None
    then have "match_first ic r cs = Some (m, caps)" using Cons.prems by simp
    then show ?thesis by (rule Cons.IH)
  next
    case (Some y)
    then have "rmatch ic r (c # cs) [] (\<lambda>(m, rest, caps). Some (m, caps)) = Some (m, caps)"
      using Cons.prems by simp
    from rmatch_spaceless[OF this] obtain m' rest caps' where
      h: "c # cs = m' @ rest"
         "(\<lambda>(m, rest, caps). Some (m, caps)) (m', rest, caps') = Some (m, caps)"
         "spaceless r \<longrightarrow> (\<forall>c \<in> set m'. \<not> is_space c)"
         "spaceless_groups r \<longrightarrow>
            (\<forall>e \<in> set caps'. e \<in> set [] \<or> (\<forall>c \<in> set (snd e). \<not> is_space c))"
      by (elim exE conjE)
    have "caps' = caps" using h(2) by simp
    then show ?thesis using h(4) assms(1) by simp
  qed
qed

lemma group_text_spaceless:
  assumes "\<forall>e \<in> set caps. \<forall>c \<in> set (snd e). \<not> is_space c"
  shows "\<forall>c \<in> set (group_text caps i). \<not> is_space c"
proof (cases "grp caps i")
  case None
  then show ?thesis by (simp add: group_text_def is_space_def)
next
  case (Some g)
  then have "(i, g) \<in> set caps" unfolding grp_def by (rule map_of_SomeD)
  then have "\<forall>c \<in> set g. \<not> is_space c" using assms by fastforce
  then show ?thesis using Some by (simp add: group_text_def)
qed

lemma spaceless_trim:
  assumes "\<forall>c \<in> set s. \<not> is_space c"
  shows "trim s = s"
proof (rule trim_fixed)
  show "s = [] \<or> (\<not> is_space (hd s) \<and> \<not> is_space (last s))"
    using assms by (cases s) auto
qed

lemma provision_of_label_ref:
  assumes "spaceless_groups pattern" and "provision_of_label pattern mk = Some p"
  shows "trim (pp_provision_ref p) = pp_provision_ref p"
proof -
  from assms(2) obtain label m caps where
    mf: "match_first True pattern label = Some (m, caps)"
    and ref: "pp_provision_ref p = ''art'' @ group_text caps 1"
    by (auto simp: provision_of_label_def Let_def split: option.splits if_splits)
  have "\<forall>c \<in> set (group_text caps 1). \<not> is_space c"
    using group_text_spaceless[OF match_first_spaceless[OF assms(1) mf]] .
  then have "\<forall>c \<in> set (pp_provision_ref p). \<not> is_space c"
    unfolding ref by (auto simp: is_space_def)
  then show ?thesis by (rule spaceless_trim)
qed

lemma spaceless_imp_groups: "spaceless r \<Longrightarrow> spaceless_groups r"
  by (induction r) simp_all

lemma PROVISION_SUFFIXES_spaceless: "spaceless (alts (map Lit PROVISION_SUFFIXES))"
  by (simp add: PROVISION_SUFFIXES_def alts_def)

lemma ARTICLE_NUMBER_spaceless: "spaceless_groups ARTICLE_NUMBER"
  using PROVISION_SUFFIXES_spaceless spaceless_imp_groups[OF PROVISION_SUFFIXES_spaceless]
  by (simp add: ARTICLE_NUMBER_def)

lemma AKN_ARTICLE_RX_groups: "spaceless_groups AKN_ARTICLE_RX"
  using ARTICLE_NUMBER_spaceless by (simp add: AKN_ARTICLE_RX_def seqs_def)

lemma ATTACHMENT_ARTICLE_RX_groups: "spaceless_groups ATTACHMENT_ARTICLE_RX"
  using ARTICLE_NUMBER_spaceless by (simp add: ATTACHMENT_ARTICLE_RX_def seqs_def)

lemma parseArticleHtml_ref:
  "parseArticleHtml markup html = Some p \<Longrightarrow> trim (pp_provision_ref p) = pp_provision_ref p"
  unfolding parseArticleHtml_def by (rule provision_of_label_ref[OF AKN_ARTICLE_RX_groups])

lemma parseAttachmentArticleHtml_ref:
  "parseAttachmentArticleHtml markup html = Some p \<Longrightarrow>
   trim (pp_provision_ref p) = pp_provision_ref p"
  unfolding parseAttachmentArticleHtml_def
  by (rule provision_of_label_ref[OF ATTACHMENT_ARTICLE_RX_groups])

lemma first_by_ref_subset: "set (first_by_ref ps) \<subseteq> set ps"
proof (induction ps rule: first_by_ref.induct)
  case 1
  then show ?case by simp
next
  case (2 p ps)
  then show ?case by auto
qed

lemma ingestAct_with_parsed:
  assumes "p \<in> set (act_provisions (ir_seed (ingestAct_with ident pa pb law fetched)))"
  shows "\<exists>h. pa h = Some p \<or> pb h = Some p"
proof (cases fetched)
  case (Inl msg)
  then show ?thesis using assms by (simp add: ingestAct_with_provisions)
next
  case (Inr articles)
  then have "p \<in> set (first_by_ref
      (List.map_filter (\<lambda>a. nullish (pa (afr_html a)) (pb (afr_html a))) articles))"
    using assms by (simp add: ingestAct_with_provisions)
  then have "p \<in> set (List.map_filter (\<lambda>a. nullish (pa (afr_html a)) (pb (afr_html a))) articles)"
    using first_by_ref_subset by blast
  then obtain a :: ArticleFetchResult where "nullish (pa (afr_html a)) (pb (afr_html a)) = Some p"
    by (auto simp: List.map_filter_def)
  then show ?thesis by (auto simp: nullish_def split: option.splits)
qed

text \<open>
  Claim C10. The provisions of the seed that \<open>ingestAct\<close> writes are the parsed
  articles in fetch order with, for each reference, only the first kept, whatever
  the contents are; their references are pairwise distinct; and for the two
  article parsers, whose references are \<open>art\<close> followed by the article number
  and so carry no white space, the builder's \<open>dedupeProvisions\<close> finds no
  duplicate in the seed's provisions and returns them unchanged, so its
  longer-body rule never applies to them.
\<close>

theorem ingestAct_first_parse_wins:
  "distinct (map pp_provision_ref (act_provisions (ir_seed (ingestAct pa pb law fetched))))
   \<and> (\<forall>articles. fetched = Inr articles \<longrightarrow>
         act_provisions (ir_seed (ingestAct pa pb law fetched)) =
         first_by_ref (List.map_filter (\<lambda>a. nullish (pa (afr_html a)) (pb (afr_html a))) articles))
   \<and> dedupeProvisions (map seed_provision (act_provisions (ir_seed
          (ingestAct (parseArticleHtml ma) (parseAttachmentArticleHtml mb) law fetched)))) =
        (map seed_provision (act_provisions (ir_seed
          (ingestAct (parseArticleHtml ma) (parseAttachmentArticleHtml mb) law fetched))),
         \<lparr>duplicate_refs = 0, conflicting_duplicates = 0\<rparr>)"
proof -
  let ?provs = "act_provisions (ir_seed (ingestAct pa pb law fetched))"
  let ?parsed = "act_provisions (ir_seed
          (ingestAct (parseArticleHtml ma) (parseAttachmentArticleHtml mb) law fetched))"
  have d: "distinct (map pp_provision_ref ?provs)"
    by (simp add: ingestAct_def ingestAct_with_distinct)
  have f: "\<forall>articles. fetched = Inr articles \<longrightarrow>
         ?provs = first_by_ref (List.map_filter (\<lambda>a. nullish (pa (afr_html a)) (pb (afr_html a))) articles)"
    by (simp add: ingestAct_def ingestAct_with_provisions)
  have d': "distinct (map ps_provision_ref (map seed_provision ?parsed))"
    unfolding seed_provision_ref by (simp add: ingestAct_def ingestAct_with_distinct)
  have t: "\<forall>p \<in> set ?parsed. trim (pp_provision_ref p) = pp_provision_ref p"
  proof
    fix p assume "p \<in> set ?parsed"
    then obtain h where "parseArticleHtml ma h = Some p \<or> parseAttachmentArticleHtml mb h = Some p"
      unfolding ingestAct_def using ingestAct_with_parsed by blast
    then show "trim (pp_provision_ref p) = pp_provision_ref p"
      using parseArticleHtml_ref parseAttachmentArticleHtml_ref by blast
  qed
  have t': "\<forall>q \<in> set (map seed_provision ?parsed). trim (ps_provision_ref q) = ps_provision_ref q"
    using t by (auto simp: seed_provision_def)
  have p: "dedupeProvisions (map seed_provision ?parsed) =
          (map seed_provision ?parsed, \<lparr>duplicate_refs = 0, conflicting_duplicates = 0\<rparr>)"
    by (rule dedupe_distinct_input[OF d' t'])
  show ?thesis using d f p by blast
qed

theorem ingestAct_first_parse_wins_witness:
  "act_provisions (ir_seed (ingestAct
      (parseArticleHtml
        (\<lambda>h. if h = ''<a>'' then \<lparr>mk_label = Some ''Art. 1'', mk_heading = ''Oggetto'',
                                   mk_content = ''Breve.''\<rparr>
              else if h = ''<b>'' then \<lparr>mk_label = Some ''Art. 1'', mk_heading = ''Oggetto'',
                                   mk_content = ''Un testo molto lungo.''\<rparr>
              else \<lparr>mk_label = None, mk_heading = [], mk_content = []\<rparr>))
      (parseAttachmentArticleHtml (\<lambda>h. \<lparr>mk_label = None, mk_heading = [], mk_content = []\<rparr>))
      \<lparr>law_id = ''dlgs-196-2003'', law_title = ''Codice Privacy'', law_type = ''dlgs'',
       law_number = 196, law_year = 2003, law_date = ''2003-06-30'', law_urn = ''urn'',
       law_url = ''url''\<rparr>
      (Inr [\<lparr>afr_url = ''u1'', afr_html = ''<a>'', afr_status = 200\<rparr>,
            \<lparr>afr_url = ''u2'', afr_html = ''<b>'', afr_status = 200\<rparr>])))
   = [\<lparr>pp_provision_ref = ''art1'', pp_section = ''1'', pp_title = ''Oggetto'',
       pp_content = ''Breve.''\<rparr>]
   \<and> dedupeProvisions (map seed_provision
        [\<lparr>pp_provision_ref = ''art1'', pp_section = ''1'', pp_title = ''Oggetto'',
          pp_content = ''Breve.''\<rparr>])
     = (map seed_provision
        [\<lparr>pp_provision_ref = ''art1'', pp_section = ''1'', pp_title = ''Oggetto'',
          pp_content = ''Breve.''\<rparr>], \<lparr>duplicate_refs = 0, conflicting_duplicates = 0\<rparr>)"
proof -
  let ?ma = "\<lambda>h. if h = ''<a>'' then \<lparr>mk_label = Some ''Art. 1'', mk_heading = ''Oggetto'',
                                   mk_content = ''Breve.''\<rparr>
              else if h = ''<b>'' then \<lparr>mk_label = Some ''Art. 1'', mk_heading = ''Oggetto'',
                                   mk_content = ''Un testo molto lungo.''\<rparr>
              else \<lparr>mk_label = None, mk_heading = [], mk_content = []\<rparr>"
  let ?mb = "\<lambda>h::string. \<lparr>mk_label = None, mk_heading = [], mk_content = []\<rparr>"
  let ?law = "\<lparr>law_id = ''dlgs-196-2003'', law_title = ''Codice Privacy'', law_type = ''dlgs'',
       law_number = 196, law_year = 2003, law_date = ''2003-06-30'', law_urn = ''urn'',
       law_url = ''url''\<rparr>"
  let ?as = "[\<lparr>afr_url = ''u1'', afr_html = ''<a>'', afr_status = 200\<rparr>,
            \<lparr>afr_url = ''u2'', afr_html = ''<b>'', afr_status = 200\<rparr>]"
  let ?p1 = "\<lparr>pp_provision_ref = ''art1'', pp_section = ''1'', pp_title = ''Oggetto'',
       pp_content = ''Breve.''\<rparr>"
  let ?p2 = "\<lparr>pp_provision_ref = ''art1'', pp_section = ''1'', pp_title = ''Oggetto'',
       pp_content = ''Un testo molto lungo.''\<rparr>"
  note inst = ingestAct_first_parse_wins[of "parseArticleHtml ?ma" "parseAttachmentArticleHtml ?mb"
      ?law "Inr ?as" ?ma ?mb]
  have a: "parseArticleHtml ?ma ''<a>'' = Some ?p1" by code_simp
  have b: "parseArticleHtml ?ma ''<b>'' = Some ?p2" by code_simp
  have "act_provisions (ir_seed (ingestAct (parseArticleHtml ?ma) (parseAttachmentArticleHtml ?mb)
          ?law (Inr ?as))) =
        first_by_ref (List.map_filter
          (\<lambda>a. nullish (parseArticleHtml ?ma (afr_html a))
                        (parseAttachmentArticleHtml ?mb (afr_html a))) ?as)"
    using inst by blast
  then have provs: "act_provisions (ir_seed (ingestAct (parseArticleHtml ?ma)
          (parseAttachmentArticleHtml ?mb) ?law (Inr ?as))) = [?p1]"
    by (simp add: List.map_filter_simps nullish_def a b del: parseArticleHtml_def)
  have "dedupeProvisions (map seed_provision [?p1]) =
             (map seed_provision [?p1], \<lparr>duplicate_refs = 0, conflicting_duplicates = 0\<rparr>)"
    using inst unfolding provs by blast
  then show ?thesis using provs by simp
qed

section \<open>The citation parser\<close>

lemmas rx_defs =
  seqs_def alts_def SUFFIX_ALT_def ARTICLE_SUFFIXES_def ARTICLE_RX_def ART_HEAD_def OPT_COMMA_def
  SHORT_TYPES_def SHORT_TAIL_def SHORT_CITATION_def COMMA_PART_def COMMA_CITATION_def
  FULL_TYPES_def MONTHS_def FULL_TAIL_def FULL_CITATION_def ID_BASED_CITATION_def CODICE_TAIL_def
  CODICE_CITATION_def

lemma must_COMMA: "must_groups COMMA_CITATION = {1, 2, 3, 4, 5}"
  by (simp add: rx_defs) blast

lemma must_ID: "must_groups ID_BASED_CITATION = {1, 2, 3, 4}"
  by (simp add: rx_defs) blast

lemma must_CODICE: "must_groups CODICE_CITATION = {1, 3}"
  by (simp add: rx_defs) blast

lemma must_FULL: "must_groups FULL_CITATION = {1, 3, 4, 5, 6, 7}"
  by (simp add: rx_defs) blast

lemma must_SHORT: "must_groups SHORT_CITATION = {1, 3, 4, 5}"
  by (simp add: rx_defs) blast

lemma numbered_result_total:
  "grp caps 1 \<noteq> None \<Longrightarrow> grp caps 3 \<noteq> None \<Longrightarrow> \<exists>p. numbered_result caps kc ni yi = Inr p"
  by (auto simp: numbered_result_def Let_def split: prod.splits)

lemma id_based_result_total:
  "grp caps 1 \<noteq> None \<Longrightarrow> grp caps 4 \<noteq> None \<Longrightarrow> \<exists>p. id_based_result caps = Inr p"
  by (auto simp: id_based_result_def Let_def split: prod.splits)

lemma codice_result_total:
  "grp caps 1 \<noteq> None \<Longrightarrow> grp caps 3 \<noteq> None \<Longrightarrow> \<exists>p. codice_result caps = Inr p"
  by (auto simp: codice_result_def Let_def split: prod.splits)

lemma parseCitation_table:
  "parseCitation s =
     (case first_grammar GRAMMARS (trim s) of
        Some r \<Rightarrow> r
      | None \<Rightarrow> Inr (invalid_result (trim s)))"
  by (simp add: parseCitation_def GRAMMARS_def Let_def split: option.splits)

lemma parseCitation_total: "\<exists>p. parseCitation s = Inr p"
proof -
  let ?t = "trim s"
  show ?thesis
  proof (cases "match_start True COMMA_CITATION ?t")
    case (Some mc)
    obtain m caps where mc: "mc = (m, caps)" by (cases mc)
    have "\<forall>i \<in> must_groups COMMA_CITATION. grp caps i \<noteq> None"
      using match_start_groups[of True COMMA_CITATION ?t m caps] Some mc by simp
    then have "grp caps 1 \<noteq> None" "grp caps 3 \<noteq> None" by (simp_all add: must_COMMA)
    then show ?thesis using Some mc numbered_result_total[of caps True 4 5]
      by (simp add: parseCitation_def Let_def)
  next
    case n1: None
    show ?thesis
    proof (cases "match_start True ID_BASED_CITATION ?t")
      case (Some mc)
      obtain m caps where mc: "mc = (m, caps)" by (cases mc)
      have "\<forall>i \<in> must_groups ID_BASED_CITATION. grp caps i \<noteq> None"
        using match_start_groups[of True ID_BASED_CITATION ?t m caps] Some mc by simp
      then have "grp caps 1 \<noteq> None" "grp caps 4 \<noteq> None" by (simp_all add: must_ID)
      then show ?thesis using n1 Some mc id_based_result_total[of caps]
        by (simp add: parseCitation_def Let_def)
    next
      case n2: None
      show ?thesis
      proof (cases "match_start True CODICE_CITATION ?t")
        case (Some mc)
        obtain m caps where mc: "mc = (m, caps)" by (cases mc)
        have "\<forall>i \<in> must_groups CODICE_CITATION. grp caps i \<noteq> None"
          using match_start_groups[of True CODICE_CITATION ?t m caps] Some mc by simp
        then have "grp caps 1 \<noteq> None" "grp caps 3 \<noteq> None" by (simp_all add: must_CODICE)
        then show ?thesis using n1 n2 Some mc codice_result_total[of caps]
          by (simp add: parseCitation_def Let_def)
      next
        case n3: None
        show ?thesis
        proof (cases "match_start True FULL_CITATION ?t")
          case (Some mc)
          obtain m caps where mc: "mc = (m, caps)" by (cases mc)
          have "\<forall>i \<in> must_groups FULL_CITATION. grp caps i \<noteq> None"
            using match_start_groups[of True FULL_CITATION ?t m caps] Some mc by simp
          then have "grp caps 1 \<noteq> None" "grp caps 3 \<noteq> None" by (simp_all add: must_FULL)
          then show ?thesis using n1 n2 n3 Some mc numbered_result_total[of caps False 7 6]
            by (simp add: parseCitation_def Let_def)
        next
          case n4: None
          show ?thesis
          proof (cases "match_start True SHORT_CITATION ?t")
            case (Some mc)
            obtain m caps where mc: "mc = (m, caps)" by (cases mc)
            have "\<forall>i \<in> must_groups SHORT_CITATION. grp caps i \<noteq> None"
              using match_start_groups[of True SHORT_CITATION ?t m caps] Some mc by simp
            then have "grp caps 1 \<noteq> None" "grp caps 3 \<noteq> None" by (simp_all add: must_SHORT)
            then show ?thesis using n1 n2 n3 n4 Some mc numbered_result_total[of caps False 4 5]
              by (simp add: parseCitation_def Let_def)
          next
            case n5: None
            then show ?thesis using n1 n2 n3 n4 by (simp add: parseCitation_def Let_def)
          qed
        qed
      qed
    qed
  qed
qed

lemma comma_grammar_decides:
  assumes "match_start True COMMA_CITATION (trim s) = Some (m, caps)"
  shows "parseCitation s = numbered_result caps True 4 5
         \<and> (\<exists>p c. parseCitation s = Inr p \<and> grp caps 2 = Some c \<and> pc_comma p = Some c)"
proof -
  have pc: "parseCitation s = numbered_result caps True 4 5"
    using assms by (simp add: parseCitation_def Let_def)
  have "\<forall>i \<in> must_groups COMMA_CITATION. grp caps i \<noteq> None"
    using match_start_groups[OF assms] by simp
  then obtain g1 c g3 where g: "grp caps 1 = Some g1" "grp caps 2 = Some c" "grp caps 3 = Some g3"
    by (auto simp: must_COMMA)
  obtain p where p: "numbered_result caps True 4 5 = Inr p"
    using numbered_result_total[of caps True 4 5] g by auto
  have "pc_comma p = Some c"
    using p g by (auto simp: numbered_result_def Let_def blank_citation_def split: prod.splits)
  then show ?thesis using pc p g by simp
qed

lemma grammar_prefix:
  assumes "match_start True r t = Some (m, caps)"
  shows "\<exists>rest. t = m @ rest"
  using match_start_groups[OF assms] by blast

text \<open>
  Claim C1, amended: a grammar matches when it matches a prefix of the trimmed
  input. The parser is the ordered table of the five grammars (a) to (e): the
  first grammar of the table that matches a prefix of the trimmed input builds
  the result; when grammar (a) matches, the result is built from its match and
  carries the paragraph number, whether or not (e) matches too; when no grammar
  matches a prefix, the result is the invalid citation whose message quotes the
  trimmed input; and no exception leaves the parser.
\<close>

theorem parseCitation_precedence:
  "parseCitation s =
     (case first_grammar GRAMMARS (trim s) of
        Some r \<Rightarrow> r
      | None \<Rightarrow> Inr (invalid_result (trim s)))
   \<and> map fst GRAMMARS =
       [COMMA_CITATION, ID_BASED_CITATION, CODICE_CITATION, FULL_CITATION, SHORT_CITATION]
   \<and> (\<forall>r m caps. match_start True r (trim s) = Some (m, caps) \<longrightarrow> (\<exists>rest. trim s = m @ rest))
   \<and> (\<forall>m caps. match_start True COMMA_CITATION (trim s) = Some (m, caps) \<longrightarrow>
         parseCitation s = numbered_result caps True 4 5
         \<and> (\<exists>p c. parseCitation s = Inr p \<and> grp caps 2 = Some c \<and> pc_comma p = Some c))
   \<and> (first_grammar GRAMMARS (trim s) = None \<longrightarrow>
         parseCitation s = Inr (invalid_result (trim s))
         \<and> \<not> pc_valid (invalid_result (trim s))
         \<and> pc_error (invalid_result (trim s)) =
             Some (''Could not parse Italian citation: '' @ [CHR 0x22] @ trim s @ [CHR 0x22]))
   \<and> (\<exists>p. parseCitation s = Inr p)"
proof -
  have 1: "parseCitation s =
     (case first_grammar GRAMMARS (trim s) of Some r \<Rightarrow> r | None \<Rightarrow> Inr (invalid_result (trim s)))"
    by (rule parseCitation_table)
  have 2: "map fst GRAMMARS =
       [COMMA_CITATION, ID_BASED_CITATION, CODICE_CITATION, FULL_CITATION, SHORT_CITATION]"
    by (simp add: GRAMMARS_def)
  have 3: "\<forall>r m caps. match_start True r (trim s) = Some (m, caps) \<longrightarrow> (\<exists>rest. trim s = m @ rest)"
    using grammar_prefix by blast
  have 4: "\<forall>m caps. match_start True COMMA_CITATION (trim s) = Some (m, caps) \<longrightarrow>
         parseCitation s = numbered_result caps True 4 5
         \<and> (\<exists>p c. parseCitation s = Inr p \<and> grp caps 2 = Some c \<and> pc_comma p = Some c)"
    using comma_grammar_decides by blast
  have 5: "first_grammar GRAMMARS (trim s) = None \<longrightarrow>
         parseCitation s = Inr (invalid_result (trim s))
         \<and> \<not> pc_valid (invalid_result (trim s))
         \<and> pc_error (invalid_result (trim s)) =
             Some (''Could not parse Italian citation: '' @ [CHR 0x22] @ trim s @ [CHR 0x22])"
    using 1 by (simp add: invalid_result_def blank_citation_def)
  show ?thesis using 1 2 3 4 5 parseCitation_total[of s] by blast
qed

lemma comma_example:
  "match_start True COMMA_CITATION (trim ''Art. 1, comma 1, D.Lgs. 196/2003'') =
     Some (''Art. 1, comma 1, D.Lgs. 196/2003'',
           [(5, ''2003''), (4, ''196''), (3, ''D.Lgs.''), (2, ''1''), (1, ''1'')])"
  by code_simp

lemma short_example:
  "match_start True SHORT_CITATION (trim ''Art. 1, comma 1, D.Lgs. 196/2003'') =
     Some (''Art. 1, comma 1, D.Lgs. 196/2003'',
           [(5, ''2003''), (4, ''196''), (3, ''D.Lgs.''), (2, ''1''), (1, ''1'')])"
  by code_simp

lemma comma_example_result:
  "numbered_result [(5, ''2003''), (4, ''196''), (3, ''D.Lgs.''), (2, ''1''), (1, ''1'')] True 4 5 =
     Inr \<lparr>pc_valid = True, pc_type = ''dlgs'', pc_title = None, pc_year = Some (Num 2003),
          pc_number = Some (Num 196), pc_article = Some ''1'', pc_comma = Some ''1'',
          pc_suffix = None, pc_document_id = Some ''dlgs-196-2003'', pc_error = None\<rparr>"
  by code_simp

theorem parseCitation_precedence_witness:
  "match_start True SHORT_CITATION (trim ''Art. 1, comma 1, D.Lgs. 196/2003'') \<noteq> None
   \<and> match_start True COMMA_CITATION (trim ''Art. 1, comma 1, D.Lgs. 196/2003'') \<noteq> None
   \<and> parseCitation ''Art. 1, comma 1, D.Lgs. 196/2003'' =
     Inr \<lparr>pc_valid = True, pc_type = ''dlgs'', pc_title = None, pc_year = Some (Num 2003),
          pc_number = Some (Num 196), pc_article = Some ''1'', pc_comma = Some ''1'',
          pc_suffix = None, pc_document_id = Some ''dlgs-196-2003'', pc_error = None\<rparr>"
proof -
  have "parseCitation ''Art. 1, comma 1, D.Lgs. 196/2003'' =
        numbered_result [(5, ''2003''), (4, ''196''), (3, ''D.Lgs.''), (2, ''1''), (1, ''1'')] True 4 5"
    using parseCitation_precedence[of "''Art. 1, comma 1, D.Lgs. 196/2003''"] comma_example
    by blast
  then have "parseCitation ''Art. 1, comma 1, D.Lgs. 196/2003'' =
     Inr \<lparr>pc_valid = True, pc_type = ''dlgs'', pc_title = None, pc_year = Some (Num 2003),
          pc_number = Some (Num 196), pc_article = Some ''1'', pc_comma = Some ''1'',
          pc_suffix = None, pc_document_id = Some ''dlgs-196-2003'', pc_error = None\<rparr>"
    by (simp only: comma_example_result)
  moreover have "match_start True SHORT_CITATION (trim ''Art. 1, comma 1, D.Lgs. 196/2003'') \<noteq> None"
    by (simp only: short_example) simp
  moreover have "match_start True COMMA_CITATION (trim ''Art. 1, comma 1, D.Lgs. 196/2003'') \<noteq> None"
    by (simp only: comma_example) simp
  ultimately show ?thesis by blast
qed

text \<open>
  The claim as stated fails in two places. On the first text below no grammar
  matches the whole trimmed input, and the parser returns a valid citation, from
  the prefix that grammar (e) matches. On the second text, which no grammar
  matches, the message of the invalid citation quotes the trimmed input, and the
  original text, with its surrounding blanks, does not occur in the message.
\<close>

theorem parseCitation_full_match_counterexample:
  "\<not> full_match True COMMA_CITATION (trim ''Art. 1, D.Lgs. 196/2003 e seguenti'')
   \<and> \<not> full_match True ID_BASED_CITATION (trim ''Art. 1, D.Lgs. 196/2003 e seguenti'')
   \<and> \<not> full_match True CODICE_CITATION (trim ''Art. 1, D.Lgs. 196/2003 e seguenti'')
   \<and> \<not> full_match True FULL_CITATION (trim ''Art. 1, D.Lgs. 196/2003 e seguenti'')
   \<and> \<not> full_match True SHORT_CITATION (trim ''Art. 1, D.Lgs. 196/2003 e seguenti'')
   \<and> parseCitation ''Art. 1, D.Lgs. 196/2003 e seguenti'' =
     Inr \<lparr>pc_valid = True, pc_type = ''dlgs'', pc_title = None, pc_year = Some (Num 2003),
          pc_number = Some (Num 196), pc_article = Some ''1'', pc_comma = None,
          pc_suffix = None, pc_document_id = Some ''dlgs-196-2003'', pc_error = None\<rparr>
   \<and> parseCitation ''  Articolo 1  '' =
     Inr \<lparr>pc_valid = False, pc_type = ''unknown'', pc_title = None, pc_year = None,
          pc_number = None, pc_article = None, pc_comma = None, pc_suffix = None,
          pc_document_id = None,
          pc_error = Some (''Could not parse Italian citation: '' @ [CHR 0x22] @ ''Articolo 1'' @
                           [CHR 0x22])\<rparr>
   \<and> \<not> str_includes ''  Articolo 1  ''
         (''Could not parse Italian citation: '' @ [CHR 0x22] @ ''Articolo 1'' @ [CHR 0x22])"
  by code_simp

section \<open>The citation validator\<close>


















section \<open>Article URLs of a landing page\<close>

subsection \<open>What a directive's groups contain\<close>

lemma rmatch_Grp_Rep:
  "rmatch ic (Grp i (Rep cl lo hi)) r1 caps K =
     rep_class (in_class cl) lo hi r1 (\<lambda>(m2, rest). K (m2, rest, (i, m2) # caps))"
  by (simp add: rmatch.simps)

lemma rmatch_Seq_Lit:
  "rmatch ic (Seq (Lit l) b) s caps K =
     (case lit_match ic l s of
        None \<Rightarrow> None
      | Some (l', r1) \<Rightarrow> rmatch ic b r1 caps (\<lambda>(m2, s2, c2). K (l' @ m2, s2, c2)))"
  by (simp add: rmatch.simps(3,5) split: option.splits)

lemma lit_group_unfold:
  "rmatch ic (Seq (Lit l) (Grp i (Rep cl lo hi))) s [] (\<lambda>(m, rest, caps). Some (m, caps)) =
     (case lit_match ic l s of
        None \<Rightarrow> None
      | Some (l', r1) \<Rightarrow> rep_class (in_class cl) lo hi r1 (\<lambda>(m2, rest). Some (l' @ m2, [(i, m2)])))"
  by (cases "lit_match ic l s") (auto simp: rmatch_Seq_Lit rmatch_Grp_Rep)

lemma rep_group_captures:
  assumes k: "rep_class (in_class cl) lo hi r1 (\<lambda>(m2, rest). Some (l' @ m2, [(i, m2)])) = Some (m, caps)"
  shows "\<exists>g. caps = [(i, g)] \<and> (\<forall>c \<in> set g. in_class cl c) \<and> lo \<le> length g"
proof -
  from rep_class_split[OF k] obtain g rest where
    g: "r1 = g @ rest" "\<forall>c \<in> set g. in_class cl c" "lo \<le> length g"
       "(\<lambda>(m2, rest). Some (l' @ m2, [(i, m2)])) (g, rest) = Some (m, caps)"
    by (elim exE conjE)
  from g(4) have "caps = [(i, g)]" by simp
  then show ?thesis using g(2,3) by blast
qed

lemma class_group_match:
  assumes "rmatch ic (Seq (Lit l) (Grp i (Rep cl lo hi))) s [] (\<lambda>(m, rest, caps). Some (m, caps)) = Some (m, caps)"
  shows "\<exists>g. caps = [(i, g)] \<and> (\<forall>c \<in> set g. in_class cl c) \<and> lo \<le> length g"
proof (cases "lit_match ic l s")
  case None
  then have "rmatch ic (Seq (Lit l) (Grp i (Rep cl lo hi))) s [] (\<lambda>(m, rest, caps). Some (m, caps)) = None"
    by (simp only: lit_group_unfold option.case)
  then show ?thesis using assms by simp
next
  case (Some lr)
  obtain l' r1 where lr: "lit_match ic l s = Some (l', r1)" using Some by (cases lr) simp
  have "rmatch ic (Seq (Lit l) (Grp i (Rep cl lo hi))) s [] (\<lambda>(m, rest, caps). Some (m, caps)) =
        rep_class (in_class cl) lo hi r1 (\<lambda>(m2, rest). Some (l' @ m2, [(i, m2)]))"
    by (simp only: lit_group_unfold lr option.case prod.case)
  then have "rep_class (in_class cl) lo hi r1 (\<lambda>(m2, rest). Some (l' @ m2, [(i, m2)])) = Some (m, caps)"
    using assms by simp
  then show ?thesis by (rule rep_group_captures)
qed


lemma match_first_groups:
  "match_first ic (Seq (Lit l) (Grp i (Rep cl lo hi))) s = Some (m, caps) \<Longrightarrow>
   \<exists>g. caps = [(i, g)] \<and> (\<forall>c \<in> set g. in_class cl c) \<and> lo \<le> length g"
proof (induction s)
  case Nil
  then show ?case using class_group_match[of ic l i cl lo hi "[]" m caps] by simp
next
  case (Cons c cs)
  show ?case
  proof (cases "rmatch ic (Seq (Lit l) (Grp i (Rep cl lo hi))) (c # cs) [] (\<lambda>(m, rest, caps). Some (m, caps))")
    case None
    then show ?thesis using Cons by simp
  next
    case (Some mc)
    then have "mc = (m, caps)" using Cons.prems by simp
    then show ?thesis using class_group_match[of ic l i cl lo hi "c # cs" m caps] Some by simp
  qed
qed

lemma first_group_or_digits:
  assumes "\<forall>c \<in> set dflt. is_digit c"
  shows "\<forall>c \<in> set (first_group_or (Seq (Lit l) (Grp 1 (Rep Digit 1 None))) s dflt). is_digit c"
proof (cases "match_first False (Seq (Lit l) (Grp 1 (Rep Digit 1 None))) s")
  case None
  then show ?thesis using assms by (simp add: first_group_or_def)
next
  case (Some mc)
  obtain m caps where mc: "mc = (m, caps)" by (cases mc)
  obtain g where "caps = [(1, g)]" "\<forall>c \<in> set g. in_class Digit c"
    using match_first_groups[of False l 1 Digit 1 None s m caps] Some mc by auto
  then show ?thesis using Some mc by (simp add: first_group_or_def grp_def)
qed

lemma first_group_or_nonempty:
  assumes "dflt \<noteq> []"
  shows "first_group_or (Seq (Lit l) (Grp 1 (Rep Digit 1 None))) s dflt \<noteq> []"
proof (cases "match_first False (Seq (Lit l) (Grp 1 (Rep Digit 1 None))) s")
  case None
  then show ?thesis using assms by (simp add: first_group_or_def)
next
  case (Some mc)
  obtain m caps where mc: "mc = (m, caps)" by (cases mc)
  obtain g where "caps = [(1, g)]" "1 \<le> length g"
    using match_first_groups[of False l 1 Digit 1 None s m caps] Some mc by auto
  then show ?thesis using Some mc by (auto simp: first_group_or_def grp_def)
qed




subsection \<open>The patterns of a directive read the digits after a name\<close>









subsection \<open>Doubles below \<open>2^53\<close>\<close>










subsection \<open>The loop over the directives\<close>






subsection \<open>The sort\<close>







subsection \<open>Keys and their numbers\<close>













subsection \<open>The historical flag in a cleaned URL\<close>









subsection \<open>The extracted URLs\<close>



subsection \<open>Numbers from \<open>2^53\<close> on\<close>











section \<open>The rate-limit gate\<close>

lemma rateLimit_enter_wait:
  "clock s - lastRequestTime s < 150 \<Longrightarrow>
   rateLimit_enter c s = s\<lparr>timers := timers s @ [(lastRequestTime s + 150, c)]\<rparr>"
  by (simp add: rateLimit_enter_def MIN_DELAY_MS_def Let_def)

lemma rateLimit_enter_pass:
  "\<not> clock s - lastRequestTime s < 150 \<Longrightarrow>
   rateLimit_enter c s = s\<lparr>lastRequestTime := clock s, issued := issued s @ [(c, clock s)]\<rparr>"
  by (simp add: rateLimit_enter_def rateLimit_resume_def MIN_DELAY_MS_def Let_def)

text \<open>
  Claim C8. A batch of four callers that starts when the gate is open, that is
  \<open>MIN_DELAY_MS\<close> or more after the last request: the first caller passes at
  once, and the three others read the same \<open>lastRequestTime\<close>, sleep the same
  150 ms and leave the gate together, so that their requests are issued at the
  same time and not 150 ms apart.
\<close>

theorem rateLimit_batch_not_serialized:
  "issued (run_batch [0, 1, 2, 3]
      \<lparr>clock = t0 + 150 + int d, lastRequestTime = t0, timers = [], issued = []\<rparr>)
   = [(0, t0 + 150 + int d), (1, t0 + 300 + int d), (2, t0 + 300 + int d),
      (3, t0 + 300 + int d)]"
  by (simp add: run_batch_def start_batch_def rateLimit_enter_wait rateLimit_enter_pass
      rateLimit_resume_def earliest_def Let_def)

section \<open>Formatting and parsing again\<close>

text \<open>
  Claim C2. The citation that the parser returns for \<open>Art. 1, D.P.R. 445/2000\<close>
  is valid, of type \<open>dpr\<close>, with an article and a (number, year) pair. In the
  short style it is formatted to a string that parses back to the same citation.
  In the full style it is formatted with the name \<open>Decreto del Presidente della
  Repubblica\<close> of \<open>TYPE_FULL_NAME\<close>, which no pattern of the parser accepts, and
  parsing the string again gives the invalid citation.
\<close>

theorem formatCitation_full_dpr_not_parsed:
  "parseCitation ''Art. 1, D.P.R. 445/2000'' =
     Inr \<lparr>pc_valid = True, pc_type = ''dpr'', pc_title = None, pc_year = Some (Num 2000),
          pc_number = Some (Num 445), pc_article = Some ''1'', pc_comma = None,
          pc_suffix = None, pc_document_id = Some ''dpr-445-2000'', pc_error = None\<rparr>
   \<and> parseCitation (formatCitation
       \<lparr>pc_valid = True, pc_type = ''dpr'', pc_title = None, pc_year = Some (Num 2000),
          pc_number = Some (Num 445), pc_article = Some ''1'', pc_comma = None,
          pc_suffix = None, pc_document_id = Some ''dpr-445-2000'', pc_error = None\<rparr> Short) =
     Inr \<lparr>pc_valid = True, pc_type = ''dpr'', pc_title = None, pc_year = Some (Num 2000),
          pc_number = Some (Num 445), pc_article = Some ''1'', pc_comma = None,
          pc_suffix = None, pc_document_id = Some ''dpr-445-2000'', pc_error = None\<rparr>
   \<and> formatCitation
       \<lparr>pc_valid = True, pc_type = ''dpr'', pc_title = None, pc_year = Some (Num 2000),
          pc_number = Some (Num 445), pc_article = Some ''1'', pc_comma = None,
          pc_suffix = None, pc_document_id = Some ''dpr-445-2000'', pc_error = None\<rparr> Full =
     ''Art. 1, Decreto del Presidente della Repubblica n. 445/2000''
   \<and> parseCitation ''Art. 1, Decreto del Presidente della Repubblica n. 445/2000'' =
     Inr (invalid_result ''Art. 1, Decreto del Presidente della Repubblica n. 445/2000'')
   \<and> \<not> pc_valid (invalid_result ''Art. 1, Decreto del Presidente della Repubblica n. 445/2000'')"
  by code_simp

theorem formatCitation_full_dpr_not_parsed_witness:
  "parseCitation (formatCitation
       \<lparr>pc_valid = True, pc_type = ''dpr'', pc_title = None, pc_year = Some (Num 2000),
          pc_number = Some (Num 445), pc_article = Some ''1'', pc_comma = None,
          pc_suffix = None, pc_document_id = Some ''dpr-445-2000'', pc_error = None\<rparr> Full) =
     Inr (invalid_result ''Art. 1, Decreto del Presidente della Repubblica n. 445/2000'')"
proof -
  note a = formatCitation_full_dpr_not_parsed[THEN conjunct2, THEN conjunct2, THEN conjunct1]
  note b = formatCitation_full_dpr_not_parsed[THEN conjunct2, THEN conjunct2, THEN conjunct2,
      THEN conjunct1]
  show ?thesis unfolding a by (rule b)
qed

end
